theory Spec2Isabelle
  imports Main
begin

text \<open>
  A model of the markdown editor \<open>cozy\<close>: the live formatter of the class
  \<open>WysiwygEditor\<close> (the detectors \<open>processSpaceTriggeredFormatting\<close> and
  \<open>processInlineFormatting\<close>, the six transforms \<open>replaceWith...\<close> and the listener of
  the \<open>input\<close> event) and the class \<open>DatabaseService\<close> of \<open>src/database.ts\<close>.
  Strings are lists of code units; the DOM is a store of nodes; a function that can throw
  returns a sum, \<open>Inl\<close> the exception.
\<close>

section \<open>Persistence: the documents table (src/database.ts)\<close>

text \<open>
  The table \<open>documents\<close> has the columns \<open>id INTEGER PRIMARY KEY AUTOINCREMENT\<close>,
  \<open>content TEXT NOT NULL\<close>, \<open>created_at\<close> and \<open>updated_at\<close>, both
  \<open>DATETIME DEFAULT CURRENT_TIMESTAMP\<close>. A timestamp is the number of seconds the
  clock of the host shows (\<open>CURRENT_TIMESTAMP\<close> has a resolution of one second); the
  clock is an input of every statement that reads it.
\<close>

record document =
  doc_id :: nat
  content :: string
  created_at :: nat
  updated_at :: nat

text \<open>
  The table is its rows in insertion order, and the number SQLite keeps for it in
  \<open>sqlite_sequence\<close>: the largest id a row of the table has ever had. The class has no
  statement that deletes or updates a row, but the file may hold a table that other
  programs have written (\<open>CREATE TABLE IF NOT EXISTS\<close>).
\<close>

record documentsTable =
  tableRows :: "document list"
  tableSeq :: nat

text \<open>
  \<open>this.db\<close> is \<open>null\<close> until \<open>initialize\<close> has run: \<open>None\<close>.
\<close>

type_synonym databaseService = "documentsTable option"

datatype dbError = DatabaseNotInitialized | SqliteFailure

text \<open>\<open>AUTOINCREMENT\<close>: a new row gets one more than the largest id the table has ever
  held, and no row can be inserted once that id is the largest 64-bit integer
  (\<open>SQLITE_FULL\<close>).\<close>

definition maxRowid :: nat where
  "maxRowid = 2 ^ 63 - 1"

definition largestId :: "documentsTable \<Rightarrow> nat" where
  "largestId tbl = max (tableSeq tbl) (fold max (map doc_id (tableRows tbl)) 0)"

text \<open>
  \<open>saveContent\<close>: throws \<open>Database not initialized\<close> when \<open>this.db\<close> is null; a
  failure of the prepared statement (\<open>stmtOk\<close> false, or no id left) is logged and thrown
  again; otherwise one row is inserted, \<open>created_at\<close> by its default and \<open>updated_at\<close>
  explicitly, both \<open>CURRENT_TIMESTAMP\<close> of the same statement.
\<close>

definition saveContent :: "bool \<Rightarrow> nat \<Rightarrow> string \<Rightarrow> databaseService \<Rightarrow> dbError + databaseService" where
  "saveContent stmtOk now c svc =
     (case svc of
        None \<Rightarrow> Inl DatabaseNotInitialized
      | Some tbl \<Rightarrow>
          if \<not> stmtOk \<or> maxRowid \<le> largestId tbl then Inl SqliteFailure
          else Inr (Some \<lparr>tableRows = tableRows tbl @
                 [\<lparr>doc_id = Suc (largestId tbl), content = c, created_at = now,
                   updated_at = now\<rparr>],
               tableSeq = Suc (largestId tbl)\<rparr>))"

text \<open>
  \<open>SELECT content FROM documents ORDER BY updated_at DESC LIMIT 1\<close>: a row whose
  \<open>updated_at\<close> no other row exceeds. SQL leaves the order of rows with equal keys
  open, so the query may answer with any of \<open>latestRows\<close>.
\<close>

definition latestRows :: "document list \<Rightarrow> document list" where
  "latestRows rows = filter (\<lambda>r. list_all (\<lambda>r'. updated_at r' \<le> updated_at r) rows) rows"

text \<open>
  \<open>getLatestContent\<close>: the set of values the call may return: \<open>None\<close> is
  \<open>null\<close> (no row), \<open>Some c\<close> the content of a latest row.
\<close>

definition getLatestContent :: "bool \<Rightarrow> databaseService \<Rightarrow> dbError + string option set" where
  "getLatestContent stmtOk svc =
     (case svc of
        None \<Rightarrow> Inl DatabaseNotInitialized
      | Some tbl \<Rightarrow>
          if \<not> stmtOk then Inl SqliteFailure
          else if tableRows tbl = [] then Inr {None}
          else Inr (set (map (\<lambda>r. Some (content r)) (latestRows (tableRows tbl)))))"

section \<open>Regular expressions of the live formatter\<close>

text \<open>
  The editor matches text with eight regular expressions. They are kept as data and run
  by a backtracking matcher that follows the ECMAScript semantics of the constructs they
  use: anchors, one-character lookaround, and greedy quantifiers over a character class,
  some of them capture groups. A character is a UTF-16 code unit below 256.
\<close>

text \<open>The class \<open>\s\<close> (and what \<open>String.prototype.trim\<close> strips): tab, line feed,
  vertical tab, form feed, carriage return, space and the no-break space.\<close>

definition isWhiteSpace :: "char \<Rightarrow> bool" where
  "isWhiteSpace c =
     (c \<in> set [CHR 0x09, CHR 0x0A, CHR 0x0B, CHR 0x0C, CHR 0x0D, CHR 0x20, CHR 0xA0])"

text \<open>The line terminators, which \<open>.\<close> does not match.\<close>

definition isLineTerminator :: "char \<Rightarrow> bool" where
  "isLineTerminator c = (c = CHR 0x0A \<or> c = CHR 0x0D)"

datatype charClass = Lit char | NotLit char | OneOf "char list" | WhiteSpaceClass | Dot

fun inClass :: "charClass \<Rightarrow> char \<Rightarrow> bool" where
  "inClass (Lit x) c = (c = x)"
| "inClass (NotLit x) c = (c \<noteq> x)"
| "inClass (OneOf xs) c = (c \<in> set xs)"
| "inClass WhiteSpaceClass c = isWhiteSpace c"
| "inClass Dot c = (\<not> isLineTerminator c)"

text \<open>
  \<open>Bol\<close> is \<open>^\<close>, \<open>Eol\<close> is \<open>$\<close> (no \<open>m\<close> flag: start and end of the input),
  \<open>NotBehind c\<close> is \<open>(?<!c)\<close>, \<open>NotAhead c\<close> is \<open>(?!c)\<close>, and
  \<open>Rep cap cls lo hi\<close> is the class \<open>cls\<close> repeated greedily \<open>lo\<close> to \<open>hi\<close> times
  (no upper bound when \<open>hi\<close> is \<open>None\<close>), inside a capture group when \<open>cap\<close>.
\<close>

datatype atom = Bol | Eol | NotBehind char | NotAhead char
  | Rep bool charClass nat "nat option"

text \<open>A greedy quantifier tries the longest repetition first and gives back one
  character at a time, down to its lower bound.\<close>

fun tryDown :: "(nat \<Rightarrow> 'a option) \<Rightarrow> nat \<Rightarrow> nat \<Rightarrow> 'a option" where
  "tryDown f lo 0 = (if lo = 0 then f 0 else None)"
| "tryDown f lo (Suc n) =
     (if lo \<le> Suc n
      then (case f (Suc n) of Some y \<Rightarrow> Some y | None \<Rightarrow> tryDown f lo n)
      else None)"

text \<open>\<open>matchAtoms as s pos caps\<close>: match the atoms at position \<open>pos\<close> of \<open>s\<close>; the
  result is the end position and the captures, in the order of the groups.\<close>

primrec matchAtoms :: "atom list \<Rightarrow> string \<Rightarrow> nat \<Rightarrow> string list \<Rightarrow> (nat \<times> string list) option" where
  "matchAtoms [] s pos caps = Some (pos, caps)"
| "matchAtoms (a # as) s pos caps =
     (case a of
        Bol \<Rightarrow> if pos = 0 then matchAtoms as s pos caps else None
      | Eol \<Rightarrow> if pos = length s then matchAtoms as s pos caps else None
      | NotBehind c \<Rightarrow>
          if 0 < pos \<and> s ! (pos - 1) = c then None else matchAtoms as s pos caps
      | NotAhead c \<Rightarrow>
          if pos < length s \<and> s ! pos = c then None else matchAtoms as s pos caps
      | Rep cap cls lo hi \<Rightarrow>
          (let avail = length (takeWhile (inClass cls) (drop pos s));
               most = (case hi of None \<Rightarrow> avail | Some h \<Rightarrow> min h avail)
           in tryDown
                (\<lambda>n. matchAtoms as s (pos + n)
                        (if cap then caps @ [take n (drop pos s)] else caps))
                lo most))"

text \<open>The array \<open>String.prototype.match\<close> returns: \<open>index\<close>, element 0 (the matched
  text) and the groups.\<close>

record regExpMatch =
  m_index :: nat
  m_full :: string
  m_groups :: "string list"

fun firstSome :: "('a \<Rightarrow> 'b option) \<Rightarrow> 'a list \<Rightarrow> 'b option" where
  "firstSome f [] = None"
| "firstSome f (x # xs) = (case f x of Some y \<Rightarrow> Some y | None \<Rightarrow> firstSome f xs)"

definition matchFrom :: "atom list \<Rightarrow> string \<Rightarrow> nat \<Rightarrow> regExpMatch option" where
  "matchFrom atoms s i =
     (case matchAtoms atoms s i [] of
        None \<Rightarrow> None
      | Some (e, caps) \<Rightarrow>
          Some \<lparr>m_index = i, m_full = take (e - i) (drop i s), m_groups = caps\<rparr>)"

text \<open>\<open>s.match(re)\<close> for a regular expression without flags: the match at the leftmost
  start position that has one, \<open>None\<close> for \<open>null\<close>.\<close>

definition regexMatch :: "atom list \<Rightarrow> string \<Rightarrow> regExpMatch option" where
  "regexMatch atoms s = firstSome (matchFrom atoms s) [0..<Suc (length s)]"

text \<open>\<open>match[i]\<close>. Every regular expression of the editor has the groups its caller
  reads; a group that does not exist reads as the empty string here.\<close>

definition matchGroup :: "regExpMatch \<Rightarrow> nat \<Rightarrow> string" where
  "matchGroup m i =
     (if i = 0 then m_full m
      else if i \<le> length (m_groups m) then m_groups m ! (i - 1) else [])"

definition lit :: "char \<Rightarrow> atom" where
  "lit c = Rep False (Lit c) 1 (Some 1)"

text \<open>\<^verbatim>\<open>/^(#{1,6})\s+(.+)$/\<close>\<close>

definition headingRegex :: "atom list" where
  "headingRegex =
     [Bol, Rep True (Lit (CHR ''#'')) 1 (Some 6), Rep False WhiteSpaceClass 1 None,
      Rep True Dot 1 None, Eol]"

text \<open>\<^verbatim>\<open>/^[-\*\+]\s*(.*)$/\<close>\<close>

definition listRegex :: "atom list" where
  "listRegex =
     [Bol, Rep False (OneOf [CHR ''-'', CHR ''*'', CHR ''+'']) 1 (Some 1),
      Rep False WhiteSpaceClass 0 None, Rep True Dot 0 None, Eol]"

text \<open>\<^verbatim>\<open>/^>\s*(.*)$/\<close>\<close>

definition blockquoteRegex :: "atom list" where
  "blockquoteRegex =
     [Bol, lit (CHR ''>''), Rep False WhiteSpaceClass 0 None, Rep True Dot 0 None, Eol]"

text \<open>\<^verbatim>\<open>/\*\*([^*]+)\*\*/\<close>\<close>

definition boldStarRegex :: "atom list" where
  "boldStarRegex =
     [lit (CHR ''*''), lit (CHR ''*''), Rep True (NotLit (CHR ''*'')) 1 None,
      lit (CHR ''*''), lit (CHR ''*'')]"

text \<open>\<^verbatim>\<open>/__([^_]+)__/\<close>\<close>

definition boldUnderscoreRegex :: "atom list" where
  "boldUnderscoreRegex =
     [lit (CHR ''_''), lit (CHR ''_''), Rep True (NotLit (CHR ''_'')) 1 None,
      lit (CHR ''_''), lit (CHR ''_'')]"

text \<open>\<^verbatim>\<open>/(?<!\*)\*([^*]+)\*(?!\*)/\<close>\<close>

definition italicStarRegex :: "atom list" where
  "italicStarRegex =
     [NotBehind (CHR ''*''), lit (CHR ''*''), Rep True (NotLit (CHR ''*'')) 1 None,
      lit (CHR ''*''), NotAhead (CHR ''*'')]"

text \<open>\<^verbatim>\<open>/(?<!_)_([^_]+)_(?!_)/\<close>\<close>

definition italicUnderscoreRegex :: "atom list" where
  "italicUnderscoreRegex =
     [NotBehind (CHR ''_''), lit (CHR ''_''), Rep True (NotLit (CHR ''_'')) 1 None,
      lit (CHR ''_''), NotAhead (CHR ''_'')]"

text \<open>The regular expression for inline code: a backquote (code unit 0x60), one or more
  characters that are not backquotes, a backquote.\<close>

definition codeRegex :: "atom list" where
  "codeRegex = [lit (CHR 0x60), Rep True (NotLit (CHR 0x60)) 1 None, lit (CHR 0x60)]"

section \<open>The document tree\<close>

text \<open>
  Nodes live in a store and are named by their index in it; a node that is created gets
  the next index, and a node that is removed from its parent stays in the store,
  detached. An element holds its tag and the list of its children. \<open>parentNode\<close> is
  read from the child lists (the DOM keeps both consistent).
\<close>

type_synonym nid = nat

datatype node = Text string | Element string "nid list"

datatype domError = NotFoundError | HierarchyRequestError | InvalidNodeTypeError

definition bindE :: "'e + 'a \<Rightarrow> ('a \<Rightarrow> 'e + 'b) \<Rightarrow> 'e + 'b" where
  "bindE m f = (case m of Inl e \<Rightarrow> Inl e | Inr x \<Rightarrow> f x)"

definition nodeAt :: "node list \<Rightarrow> nid \<Rightarrow> node option" where
  "nodeAt ns n = (if n < length ns then Some (ns ! n) else None)"

definition childNodes :: "node list \<Rightarrow> nid \<Rightarrow> nid list" where
  "childNodes ns n = (case nodeAt ns n of Some (Element tag cs) \<Rightarrow> cs | _ \<Rightarrow> [])"

definition parentNode :: "node list \<Rightarrow> nid \<Rightarrow> nid option" where
  "parentNode ns n = find (\<lambda>p. n \<in> set (childNodes ns p)) [0..<length ns]"

text \<open>Every child of a node of the store is a node of the store.\<close>

definition wellFormed :: "node list \<Rightarrow> bool" where
  "wellFormed ns = list_all (\<lambda>p. list_all (\<lambda>c. c < length ns) (childNodes ns p)) [0..<length ns]"

text \<open>\<open>textContent\<close>: the data of a text node, the concatenated text of the
  descendants of an element. The traversal descends at most as deep as the store has
  nodes, which is every level of a tree.\<close>

primrec textContentF :: "nat \<Rightarrow> node list \<Rightarrow> nid \<Rightarrow> string" where
  "textContentF 0 ns n = (case nodeAt ns n of Some (Text s) \<Rightarrow> s | _ \<Rightarrow> [])"
| "textContentF (Suc k) ns n =
     (case nodeAt ns n of
        Some (Text s) \<Rightarrow> s
      | Some (Element tag cs) \<Rightarrow> concat (map (textContentF k ns) cs)
      | None \<Rightarrow> [])"

definition textContent :: "node list \<Rightarrow> nid \<Rightarrow> string" where
  "textContent ns n = textContentF (length ns) ns n"

definition createElement :: "string \<Rightarrow> node list \<Rightarrow> nid \<times> node list" where
  "createElement tag ns = (length ns, ns @ [Element tag []])"

definition createTextNode :: "string \<Rightarrow> node list \<Rightarrow> nid \<times> node list" where
  "createTextNode s ns = (length ns, ns @ [Text s])"

text \<open>The setter of \<open>textContent\<close>: an element loses its children and, unless the
  string is empty, gets one new text node; a text node gets the string as its data.\<close>

definition setTextContent :: "nid \<Rightarrow> string \<Rightarrow> node list \<Rightarrow> node list" where
  "setTextContent el s ns =
     (case nodeAt ns el of
        Some (Element tag cs) \<Rightarrow>
          if s = [] then ns[el := Element tag []]
          else (ns @ [Text s])[el := Element tag [length ns]]
      | Some (Text old) \<Rightarrow> ns[el := Text s]
      | None \<Rightarrow> ns)"

text \<open>\<open>appendChild\<close>, \<open>insertBefore\<close> and \<open>removeChild\<close>, for a node that has no
  parent yet (the editor inserts only nodes it has just created). A text node takes no
  child; a reference node that is not a child of the parent is a \<open>NotFoundError\<close>.\<close>

definition appendChild :: "nid \<Rightarrow> nid \<Rightarrow> node list \<Rightarrow> domError + node list" where
  "appendChild parent child ns =
     (case nodeAt ns parent of
        Some (Element tag cs) \<Rightarrow> Inr (ns[parent := Element tag (cs @ [child])])
      | _ \<Rightarrow> Inl HierarchyRequestError)"

fun insertBeforeL :: "nid \<Rightarrow> nid \<Rightarrow> nid list \<Rightarrow> nid list" where
  "insertBeforeL new ref [] = []"
| "insertBeforeL new ref (c # cs) =
     (if c = ref then new # c # cs else c # insertBeforeL new ref cs)"

definition insertBefore :: "nid \<Rightarrow> nid \<Rightarrow> nid \<Rightarrow> node list \<Rightarrow> domError + node list" where
  "insertBefore parent new ref ns =
     (case nodeAt ns parent of
        Some (Element tag cs) \<Rightarrow>
          if ref \<in> set cs then Inr (ns[parent := Element tag (insertBeforeL new ref cs)])
          else Inl NotFoundError
      | _ \<Rightarrow> Inl HierarchyRequestError)"

definition removeChild :: "nid \<Rightarrow> nid \<Rightarrow> node list \<Rightarrow> domError + node list" where
  "removeChild parent child ns =
     (case nodeAt ns parent of
        Some (Element tag cs) \<Rightarrow>
          if child \<in> set cs then Inr (ns[parent := Element tag (remove1 child cs)])
          else Inl NotFoundError
      | _ \<Rightarrow> Inl NotFoundError)"

text \<open>A range: its two boundary points, each a node and an offset into it.\<close>

record domRange =
  startContainer :: nid
  startOffset :: nat
  endContainer :: nid
  endOffset :: nat

text \<open>\<open>range.setStart(n, off); range.collapse(true)\<close> on a new range.\<close>

definition collapsedAt :: "nid \<Rightarrow> nat \<Rightarrow> domRange" where
  "collapsedAt n off =
     \<lparr>startContainer = n, startOffset = off, endContainer = n, endOffset = off\<rparr>"

definition indexOf :: "nid \<Rightarrow> nid list \<Rightarrow> nat" where
  "indexOf n cs = length (takeWhile (\<lambda>c. c \<noteq> n) cs)"

text \<open>\<open>range.setStartAfter(n); range.collapse(true)\<close>: the point in the parent of
  \<open>n\<close> behind \<open>n\<close>; a node without a parent is an \<open>InvalidNodeTypeError\<close>.\<close>

definition rangeAfter :: "node list \<Rightarrow> nid \<Rightarrow> domError + domRange" where
  "rangeAfter ns n =
     (case parentNode ns n of
        None \<Rightarrow> Inl InvalidNodeTypeError
      | Some parent \<Rightarrow> Inr (collapsedAt parent (Suc (indexOf n (childNodes ns parent)))))"

text \<open>The root of a node is the last node on the way up through \<open>parentNode\<close>. The way
  is followed for at most as many steps as the store has nodes, which is every level of a
  tree; in a store that is no tree the way may not end, and the node has no root.\<close>

primrec rootF :: "nat \<Rightarrow> node list \<Rightarrow> nid \<Rightarrow> nid option" where
  "rootF 0 ns n = None"
| "rootF (Suc k) ns n = (case parentNode ns n of None \<Rightarrow> Some n | Some p \<Rightarrow> rootF k ns p)"

definition rootNode :: "node list \<Rightarrow> nid \<Rightarrow> nid option" where
  "rootNode ns n = rootF (length ns) ns n"

text \<open>The selection is \<open>None\<close> when \<open>window.getSelection()\<close> is null, otherwise the
  list of its ranges. \<open>selection?.removeAllRanges(); selection?.addRange(range)\<close>, in the
  store \<open>ns\<close> with the document \<open>document\<close>: \<open>addRange\<close> returns at once, and the
  selection stays empty, when the root of the range (the root of its start container) is
  not the document.\<close>

definition replaceRanges ::
  "node list \<Rightarrow> nid \<Rightarrow> domRange \<Rightarrow> domRange list option \<Rightarrow> domRange list option" where
  "replaceRanges ns documentNd r sel =
     (case sel of
        None \<Rightarrow> None
      | Some rs \<Rightarrow> Some (if rootNode ns (startContainer r) = Some documentNd then [r] else []))"

definition trim :: "string \<Rightarrow> string" where
  "trim s = rev (dropWhile isWhiteSpace (rev (dropWhile isWhiteSpace s)))"

text \<open>The decimal digits of a number, as the template literal \<open>h${level}\<close> writes it.\<close>

definition digitChar :: "nat \<Rightarrow> char" where
  "digitChar d = ''0123456789'' ! d"

fun numberToString :: "nat \<Rightarrow> string" where
  "numberToString n =
     (if n < 10 then [digitChar n] else numberToString (n div 10) @ [digitChar (n mod 10)])"

declare numberToString.simps [simp del]

section \<open>The editor (class WysiwygEditor, editor.ts)\<close>

text \<open>
  The state of an editor: the store of the nodes, the selection of the window, the field
  \<open>isProcessing\<close>, the number of pending timers that will reset it, the node that is
  the global \<open>document\<close> (the root of the tree the window shows), the element
  \<open>this.editor\<close>, whether that element has the class \<open>empty\<close>, and whether a
  debounce timer is armed.
\<close>

record editor =
  doc :: "node list"
  selection :: "domRange list option"
  isProcessing :: bool
  resetTimers :: nat
  documentNode :: nid
  editorEl :: nid
  emptyClass :: bool
  debounceTimer :: bool

record inputEvent =
  inputType :: string
  data :: "string option"

definition showPlaceholder :: "editor \<Rightarrow> editor" where
  "showPlaceholder st =
     (if trim (textContent (doc st) (editorEl st)) = [] then st\<lparr>emptyClass := True\<rparr> else st)"

definition hidePlaceholder :: "editor \<Rightarrow> editor" where
  "hidePlaceholder st = st\<lparr>emptyClass := False\<rparr>"

definition handlePlaceholder :: "editor \<Rightarrow> editor" where
  "handlePlaceholder st =
     (if trim (textContent (doc st) (editorEl st)) = [] then showPlaceholder st
      else hidePlaceholder st)"

definition debouncedSave :: "editor \<Rightarrow> editor" where
  "debouncedSave st = st\<lparr>debounceTimer := True\<rparr>"

text \<open>The callback of \<open>setTimeout(() => { this.isProcessing = false }, 10)\<close>.\<close>

definition resetTimerFires :: "editor \<Rightarrow> editor" where
  "resetTimerFires st = st\<lparr>isProcessing := False, resetTimers := resetTimers st - 1\<rparr>"

text \<open>
  The six transforms. Each of them sets \<open>isProcessing\<close> before it touches the tree and
  arms the timer that resets it when it is done, whether or not the text node has a
  parent. An exception of the DOM ends the transform where it is thrown.

  The DOM moves the boundary points of a live range out of a node that is removed. The
  transforms replace the ranges of the selection right after they have removed the text
  node, so the move is not observable and is not modelled.
\<close>

definition replaceWithHeading :: "nid \<Rightarrow> nat \<Rightarrow> string \<Rightarrow> string \<Rightarrow> editor \<Rightarrow> domError + editor" where
  "replaceWithHeading textNode level text afterText st =
     (let (heading, d1) = createElement (''h'' @ numberToString level) (doc st);
          d2 = setTextContent heading text d1;
          st2 = st\<lparr>isProcessing := True, doc := d2\<rparr>
      in bindE
           (case parentNode d2 textNode of
              None \<Rightarrow> Inr st2
            | Some parent \<Rightarrow>
                bindE (insertBefore parent heading textNode d2) (\<lambda>d3.
                bindE (if trim afterText \<noteq> []
                       then (let (afterNode, d) = createTextNode afterText d3
                             in insertBefore parent afterNode textNode d)
                       else Inr d3) (\<lambda>d4.
                bindE (removeChild parent textNode d4) (\<lambda>d5.
                Inr (st2\<lparr>doc := d5,
                         selection := replaceRanges d5 (documentNode st2)
                           (collapsedAt heading (length (childNodes d5 heading)))
                           (selection st2)\<rparr>)))))
           (\<lambda>st3. Inr (st3\<lparr>resetTimers := Suc (resetTimers st3)\<rparr>)))"

definition replaceWithList :: "nid \<Rightarrow> string \<Rightarrow> string \<Rightarrow> editor \<Rightarrow> domError + editor" where
  "replaceWithList textNode text afterText st =
     (let (listItem, d0) = createElement ''li'' (doc st);
          d1 = setTextContent listItem text d0;
          (list, d1') = createElement ''ul'' d1
      in bindE (appendChild list listItem d1') (\<lambda>d2.
         (let st2 = st\<lparr>isProcessing := True, doc := d2\<rparr>
          in bindE
           (case parentNode d2 textNode of
              None \<Rightarrow> Inr st2
            | Some parent \<Rightarrow>
                bindE (insertBefore parent list textNode d2) (\<lambda>d3.
                bindE (if trim afterText \<noteq> []
                       then (let (afterNode, d) = createTextNode afterText d3
                             in insertBefore parent afterNode textNode d)
                       else Inr d3) (\<lambda>d4.
                bindE (removeChild parent textNode d4) (\<lambda>d5.
                Inr (st2\<lparr>doc := d5,
                         selection := replaceRanges d5 (documentNode st2)
                           (collapsedAt listItem (length (childNodes d5 listItem)))
                           (selection st2)\<rparr>)))))
           (\<lambda>st3. Inr (st3\<lparr>resetTimers := Suc (resetTimers st3)\<rparr>)))))"

definition replaceWithBlockquote :: "nid \<Rightarrow> string \<Rightarrow> string \<Rightarrow> editor \<Rightarrow> domError + editor" where
  "replaceWithBlockquote textNode text afterText st =
     (let (blockquote, d1) = createElement ''blockquote'' (doc st);
          d2 = setTextContent blockquote text d1;
          st2 = st\<lparr>isProcessing := True, doc := d2\<rparr>
      in bindE
           (case parentNode d2 textNode of
              None \<Rightarrow> Inr st2
            | Some parent \<Rightarrow>
                bindE (insertBefore parent blockquote textNode d2) (\<lambda>d3.
                bindE (if trim afterText \<noteq> []
                       then (let (afterNode, d) = createTextNode afterText d3
                             in insertBefore parent afterNode textNode d)
                       else Inr d3) (\<lambda>d4.
                bindE (removeChild parent textNode d4) (\<lambda>d5.
                Inr (st2\<lparr>doc := d5,
                         selection := replaceRanges d5 (documentNode st2)
                           (collapsedAt blockquote (length (childNodes d5 blockquote)))
                           (selection st2)\<rparr>)))))
           (\<lambda>st3. Inr (st3\<lparr>resetTimers := Suc (resetTimers st3)\<rparr>)))"

definition replaceWithBold :: "nid \<Rightarrow> regExpMatch \<Rightarrow> editor \<Rightarrow> domError + editor" where
  "replaceWithBold textNode match st =
     (let st1 = st\<lparr>isProcessing := True\<rparr>;
          fullMatch = matchGroup match 0;
          content = matchGroup match 1;
          startIndex = m_index match;
          beforeText = take startIndex (textContent (doc st1) textNode);
          afterText = drop (startIndex + length fullMatch) (textContent (doc st1) textNode)
      in bindE
           (case parentNode (doc st1) textNode of
              None \<Rightarrow> Inr st1
            | Some parent \<Rightarrow>
                bindE (if beforeText \<noteq> []
                       then (let (beforeNode, d) = createTextNode beforeText (doc st1)
                             in insertBefore parent beforeNode textNode d)
                       else Inr (doc st1)) (\<lambda>d2.
                (let (bold, d3) = createElement ''strong'' d2;
                     d4 = setTextContent bold content d3
                 in bindE (insertBefore parent bold textNode d4) (\<lambda>d5.
                    bindE (if afterText \<noteq> []
                           then (let (afterNode, d) = createTextNode afterText d5
                                 in insertBefore parent afterNode textNode d)
                           else Inr d5) (\<lambda>d6.
                    bindE (removeChild parent textNode d6) (\<lambda>d7.
                    bindE (rangeAfter d7 bold) (\<lambda>range.
                    Inr (st1\<lparr>doc := d7,
                             selection := replaceRanges d7 (documentNode st1) range (selection st1)\<rparr>))))))))
           (\<lambda>st2. Inr (st2\<lparr>resetTimers := Suc (resetTimers st2)\<rparr>)))"

definition replaceWithItalic :: "nid \<Rightarrow> regExpMatch \<Rightarrow> editor \<Rightarrow> domError + editor" where
  "replaceWithItalic textNode match st =
     (let st1 = st\<lparr>isProcessing := True\<rparr>;
          fullMatch = matchGroup match 0;
          content = matchGroup match 1;
          startIndex = m_index match;
          beforeText = take startIndex (textContent (doc st1) textNode);
          afterText = drop (startIndex + length fullMatch) (textContent (doc st1) textNode)
      in bindE
           (case parentNode (doc st1) textNode of
              None \<Rightarrow> Inr st1
            | Some parent \<Rightarrow>
                bindE (if beforeText \<noteq> []
                       then (let (beforeNode, d) = createTextNode beforeText (doc st1)
                             in insertBefore parent beforeNode textNode d)
                       else Inr (doc st1)) (\<lambda>d2.
                (let (italic, d3) = createElement ''em'' d2;
                     d4 = setTextContent italic content d3
                 in bindE (insertBefore parent italic textNode d4) (\<lambda>d5.
                    bindE (if afterText \<noteq> []
                           then (let (afterNode, d) = createTextNode afterText d5
                                 in insertBefore parent afterNode textNode d)
                           else Inr d5) (\<lambda>d6.
                    bindE (removeChild parent textNode d6) (\<lambda>d7.
                    bindE (rangeAfter d7 italic) (\<lambda>range.
                    Inr (st1\<lparr>doc := d7,
                             selection := replaceRanges d7 (documentNode st1) range (selection st1)\<rparr>))))))))
           (\<lambda>st2. Inr (st2\<lparr>resetTimers := Suc (resetTimers st2)\<rparr>)))"

definition replaceWithCode :: "nid \<Rightarrow> regExpMatch \<Rightarrow> editor \<Rightarrow> domError + editor" where
  "replaceWithCode textNode match st =
     (let st1 = st\<lparr>isProcessing := True\<rparr>;
          fullMatch = matchGroup match 0;
          content = matchGroup match 1;
          startIndex = m_index match;
          beforeText = take startIndex (textContent (doc st1) textNode);
          afterText = drop (startIndex + length fullMatch) (textContent (doc st1) textNode)
      in bindE
           (case parentNode (doc st1) textNode of
              None \<Rightarrow> Inr st1
            | Some parent \<Rightarrow>
                bindE (if beforeText \<noteq> []
                       then (let (beforeNode, d) = createTextNode beforeText (doc st1)
                             in insertBefore parent beforeNode textNode d)
                       else Inr (doc st1)) (\<lambda>d2.
                (let (code, d3) = createElement ''code'' d2;
                     d4 = setTextContent code content d3
                 in bindE (insertBefore parent code textNode d4) (\<lambda>d5.
                    bindE (if afterText \<noteq> []
                           then (let (afterNode, d) = createTextNode afterText d5
                                 in insertBefore parent afterNode textNode d)
                           else Inr d5) (\<lambda>d6.
                    bindE (removeChild parent textNode d6) (\<lambda>d7.
                    bindE (rangeAfter d7 code) (\<lambda>range.
                    Inr (st1\<lparr>doc := d7,
                             selection := replaceRanges d7 (documentNode st1) range (selection st1)\<rparr>))))))))
           (\<lambda>st2. Inr (st2\<lparr>resetTimers := Suc (resetTimers st2)\<rparr>)))"

text \<open>
  The two detectors. Both return at once when the window has no selection or the selection
  has no range, read the start of the first range, and act only when its container is a
  text node. \<open>substring(0, offset)\<close> and \<open>substring(offset)\<close> are \<open>take\<close> and \<open>drop\<close>.
\<close>

definition processSpaceTriggeredFormatting :: "editor \<Rightarrow> domError + editor" where
  "processSpaceTriggeredFormatting st =
     (case selection st of
        None \<Rightarrow> Inr st
      | Some [] \<Rightarrow> Inr st
      | Some (rng # rs) \<Rightarrow>
          (let container = startContainer rng;
               offset = startOffset rng
           in case nodeAt (doc st) container of
                Some (Text tc) \<Rightarrow>
                  (let beforeCursor = take offset tc;
                       afterCursor = drop offset tc
                   in case regexMatch headingRegex beforeCursor of
                        Some headingMatch \<Rightarrow>
                          replaceWithHeading container (length (matchGroup headingMatch 1))
                            (matchGroup headingMatch 2) afterCursor st
                      | None \<Rightarrow>
                         (case regexMatch listRegex beforeCursor of
                            Some listMatch \<Rightarrow>
                              replaceWithList container (matchGroup listMatch 1) afterCursor st
                          | None \<Rightarrow>
                             (case regexMatch blockquoteRegex beforeCursor of
                                Some blockquoteMatch \<Rightarrow>
                                  replaceWithBlockquote container
                                    (matchGroup blockquoteMatch 1) afterCursor st
                              | None \<Rightarrow> Inr st)))
              | _ \<Rightarrow> Inr st))"

definition processInlineFormatting :: "editor \<Rightarrow> domError + editor" where
  "processInlineFormatting st =
     (case selection st of
        None \<Rightarrow> Inr st
      | Some [] \<Rightarrow> Inr st
      | Some (rng # rs) \<Rightarrow>
          (let container = startContainer rng
           in case nodeAt (doc st) container of
                Some (Text tc) \<Rightarrow>
                  (let boldMatch =
                         (case regexMatch boldStarRegex tc of
                            Some m \<Rightarrow> Some m
                          | None \<Rightarrow> regexMatch boldUnderscoreRegex tc)
                   in case boldMatch of
                        Some m \<Rightarrow> replaceWithBold container m st
                      | None \<Rightarrow>
                         (let italicMatch =
                                (case regexMatch italicStarRegex tc of
                                   Some m \<Rightarrow> Some m
                                 | None \<Rightarrow> regexMatch italicUnderscoreRegex tc)
                          in case italicMatch of
                               Some m \<Rightarrow> replaceWithItalic container m st
                             | None \<Rightarrow>
                                (case regexMatch codeRegex tc of
                                   Some codeMatch \<Rightarrow> replaceWithCode container codeMatch st
                                 | None \<Rightarrow> Inr st)))
              | _ \<Rightarrow> Inr st))"

definition processLiveFormatting :: "inputEvent \<Rightarrow> editor \<Rightarrow> domError + editor" where
  "processLiveFormatting e st =
     (if inputType e = ''insertText'' \<and> data e = Some '' ''
      then processSpaceTriggeredFormatting st
      else if inputType e = ''insertText'' then processInlineFormatting st
      else Inr st)"

text \<open>The listener of the \<open>input\<close> event.\<close>

definition onInput :: "inputEvent \<Rightarrow> editor \<Rightarrow> domError + editor" where
  "onInput e st =
     (if \<not> isProcessing st
      then bindE (processLiveFormatting e (handlePlaceholder st))
             (\<lambda>st'. Inr (debouncedSave st'))
      else Inr st)"

section \<open>Auxiliary definitions for the proofs\<close>

text \<open>The longest repetition a quantifier can take at a position.\<close>

definition repMost :: "charClass \<Rightarrow> nat option \<Rightarrow> string \<Rightarrow> nat \<Rightarrow> nat" where
  "repMost cls hi s pos =
     (case hi of None \<Rightarrow> length (takeWhile (inClass cls) (drop pos s))
      | Some h \<Rightarrow> min h (length (takeWhile (inClass cls) (drop pos s))))"

text \<open>The nodes \<open>createElement\<close> and the setter of \<open>textContent\<close> add to the store for
  an element with the given text, when the element gets the index \<open>n\<close>.\<close>

definition elemNodes :: "string \<Rightarrow> nat \<Rightarrow> string \<Rightarrow> node list" where
  "elemNodes tag n txt = (if txt = [] then [Element tag []] else [Element tag [Suc n], Text txt])"

text \<open>The part the three block transforms share, from reading \<open>parentNode\<close> on: the
  new element \<open>element\<close> replaces the text node and the caret goes to the end of
  \<open>caretHost\<close>.\<close>

definition spliceBlock :: "nid \<Rightarrow> nid \<Rightarrow> nid \<Rightarrow> string \<Rightarrow> editor \<Rightarrow> domError + editor" where
  "spliceBlock textNode element caretHost afterText st2 =
     bindE
       (case parentNode (doc st2) textNode of
          None \<Rightarrow> Inr st2
        | Some parent \<Rightarrow>
            bindE (insertBefore parent element textNode (doc st2)) (\<lambda>d3.
            bindE (if trim afterText \<noteq> []
                   then (let (afterNode, d) = createTextNode afterText d3
                         in insertBefore parent afterNode textNode d)
                   else Inr d3) (\<lambda>d4.
            bindE (removeChild parent textNode d4) (\<lambda>d5.
            Inr (st2\<lparr>doc := d5,
                     selection := replaceRanges d5 (documentNode st2)
                       (collapsedAt caretHost (length (childNodes d5 caretHost)))
                       (selection st2)\<rparr>)))))
       (\<lambda>st3. Inr (st3\<lparr>resetTimers := Suc (resetTimers st3)\<rparr>))"

text \<open>The text node a block transform adds for the text behind the caret, and its index.\<close>

definition afterNodes :: "string \<Rightarrow> node list" where
  "afterNodes afterText = (if trim afterText \<noteq> [] then [Text afterText] else [])"

definition afterIds :: "string \<Rightarrow> nat \<Rightarrow> nid list" where
  "afterIds afterText n = (if trim afterText \<noteq> [] then [n] else [])"

text \<open>The part the three inline transforms share: they differ in the tag only.\<close>

definition spliceInline ::
  "string \<Rightarrow> nid \<Rightarrow> string \<Rightarrow> string \<Rightarrow> string \<Rightarrow> editor \<Rightarrow> domError + editor" where
  "spliceInline tag textNode beforeText inner afterText st1 =
      bindE
           (case parentNode (doc st1) textNode of
              None \<Rightarrow> Inr st1
            | Some parent \<Rightarrow>
                bindE (if beforeText \<noteq> []
                       then (let (beforeNode, d) = createTextNode beforeText (doc st1)
                             in insertBefore parent beforeNode textNode d)
                       else Inr (doc st1)) (\<lambda>d2.
                (let (el, d3) = createElement tag d2;
                     d4 = setTextContent el inner d3
                 in bindE (insertBefore parent el textNode d4) (\<lambda>d5.
                    bindE (if afterText \<noteq> []
                           then (let (afterNode, d) = createTextNode afterText d5
                                 in insertBefore parent afterNode textNode d)
                           else Inr d5) (\<lambda>d6.
                    bindE (removeChild parent textNode d6) (\<lambda>d7.
                    bindE (rangeAfter d7 el) (\<lambda>range.
                    Inr (st1\<lparr>doc := d7,
                             selection := replaceRanges d7 (documentNode st1) range (selection st1)\<rparr>))))))))
           (\<lambda>st2. Inr (st2\<lparr>resetTimers := Suc (resetTimers st2)\<rparr>))"

text \<open>The text node an inline transform adds for a text before or behind the match, and
  its index.\<close>

definition plainNodes :: "string \<Rightarrow> node list" where
  "plainNodes s = (if s \<noteq> [] then [Text s] else [])"

definition plainIds :: "string \<Rightarrow> nat \<Rightarrow> nid list" where
  "plainIds s n = (if s \<noteq> [] then [n] else [])"

text \<open>The nodes \<open>ms\<close> added to a store of \<open>n\<close> nodes have no child among the nodes
  the store had.\<close>

definition newChildrenOnly :: "nat \<Rightarrow> node list \<Rightarrow> bool" where
  "newChildrenOnly n ms =
     list_all (\<lambda>m. case m of Element tag cs \<Rightarrow> list_all (\<lambda>c. n \<le> c) cs | Text s \<Rightarrow> True) ms"

section \<open>Vocabulary of the properties\<close>

text \<open>An editor at rest with the store \<open>ns\<close> and a collapsed selection at offset
  \<open>off\<close> of the node \<open>t\<close>. Node 0 is the root of the tree the window shows and is
  \<open>this.editor\<close> (the nodes above the element of the editor are left out).\<close>

definition caretIn :: "node list \<Rightarrow> nid \<Rightarrow> nat \<Rightarrow> editor" where
  "caretIn ns t off =
     \<lparr>doc = ns, selection = Some [collapsedAt t off], isProcessing = False, resetTimers = 0,
      documentNode = 0, editorEl = 0, emptyClass = False, debounceTimer = False\<rparr>"

text \<open>The event \<open>input\<close> of a typed space, and of another typed character.\<close>

definition spaceTyped :: inputEvent where
  "spaceTyped = \<lparr>inputType = ''insertText'', data = Some '' ''\<rparr>"

definition charTyped :: "char \<Rightarrow> inputEvent" where
  "charTyped c = \<lparr>inputType = ''insertText'', data = Some [c]\<rparr>"

text \<open>The text run both detectors read: the start container of the first range of the
  selection, when it is a text node, with its text and the start offset.\<close>

definition caretRun :: "editor \<Rightarrow> (nid \<times> string \<times> nat) option" where
  "caretRun st =
     (case selection st of
        None \<Rightarrow> None
      | Some [] \<Rightarrow> None
      | Some (rng # rs) \<Rightarrow>
          (case nodeAt (doc st) (startContainer rng) of
             Some (Text tc) \<Rightarrow> Some (startContainer rng, tc, startOffset rng)
           | _ \<Rightarrow> None))"

text \<open>The tree is unchanged: every node of the old store is in the new store as it was,
  with the same children and the same parent.\<close>

definition unchangedTree :: "node list \<Rightarrow> node list \<Rightarrow> bool" where
  "unchangedTree ns ns' =
     (take (length ns) ns' = ns
      \<and> list_all (\<lambda>n. parentNode ns' n = parentNode ns n) [0..<length ns])"

text \<open>An operation is a silent no-op: it returns (no exception), the tree is unchanged and
  so is the selection.\<close>

definition silentNoOp :: "editor \<Rightarrow> domError + editor \<Rightarrow> bool" where
  "silentNoOp st r =
     (case r of
        Inl e \<Rightarrow> False
      | Inr st' \<Rightarrow> unchangedTree (doc st) (doc st') \<and> selection st' = selection st)"

text \<open>The caret is collapsed at the end of the content of \<open>el\<close>; the caret is collapsed in
  \<open>parent\<close>, right behind its child \<open>el\<close>.\<close>

definition caretAtEndOf :: "editor \<Rightarrow> nid \<Rightarrow> bool" where
  "caretAtEndOf st el =
     (selection st = Some [collapsedAt el (length (childNodes (doc st) el))])"

definition caretBehind :: "editor \<Rightarrow> nid \<Rightarrow> nid \<Rightarrow> bool" where
  "caretBehind st parent el =
     (el \<in> set (childNodes (doc st) parent)
      \<and> selection st
          = Some [collapsedAt parent (Suc (indexOf el (childNodes (doc st) parent)))])"

text \<open>The elements an event has created: the tags of the element nodes it has added to
  the store (no operation changes the tag of a node). An event has made a heading when
  it returned and one of these tags is \<open>h1\<close> to \<open>h6\<close>.\<close>

fun tagsOf :: "node list \<Rightarrow> string list" where
  "tagsOf [] = []"
| "tagsOf (Element tag cs # ms) = tag # tagsOf ms"
| "tagsOf (Text s # ms) = tagsOf ms"

definition createdTags :: "editor \<Rightarrow> editor \<Rightarrow> string list" where
  "createdTags st st' = tagsOf (drop (length (doc st)) (doc st'))"

definition headingMade :: "editor \<Rightarrow> domError + editor \<Rightarrow> bool" where
  "headingMade st r =
     (case r of
        Inl e \<Rightarrow> False
      | Inr st' \<Rightarrow>
          list_ex (\<lambda>tag. tag \<in> set [''h1'', ''h2'', ''h3'', ''h4'', ''h5'', ''h6''])
            (createdTags st st'))"



text \<open>A match of a delimited pattern: the matched text is the delimiter, the captured
  content and the delimiter again; the content is not empty and holds no delimiter
  character; and the text run is the text before the match, the match and the text behind
  it. A match is not adjacent to \<open>d\<close> when neither the character before it nor the
  character behind it is \<open>d\<close>.\<close>

definition delimited :: "string \<Rightarrow> string \<Rightarrow> regExpMatch \<Rightarrow> bool" where
  "delimited delim s m =
     (m_full m = delim @ matchGroup m 1 @ delim
      \<and> matchGroup m 1 \<noteq> []
      \<and> hd delim \<notin> set (matchGroup m 1)
      \<and> s = take (m_index m) s @ m_full m @ drop (m_index m + length (m_full m)) s)"

definition notAdjacent :: "char \<Rightarrow> string \<Rightarrow> regExpMatch \<Rightarrow> bool" where
  "notAdjacent d s m =
     (\<not> (0 < m_index m \<and> s ! (m_index m - 1) = d)
      \<and> \<not> (m_index m + length (m_full m) < length s
           \<and> s ! (m_index m + length (m_full m)) = d))"

section \<open>Detector and rewriter, as the specification words them\<close>

text \<open>
  The specification describes a detector that returns at most one trigger match, chosen
  by a fixed precedence, and a rewriter that applies it. The source has no such value:
  each detector calls its transforms directly. The definitions of this section follow
  the specification, to be compared with \<open>processLiveFormatting\<close>.
\<close>

datatype triggerMatch =
    HeadingMatch nat string
  | ListMatch string
  | BlockquoteMatch string
  | BoldMatch regExpMatch
  | ItalicMatch regExpMatch
  | CodeMatch regExpMatch

text \<open>Block triggers: heading first, then list, then blockquote.\<close>

definition specDetectBlock :: "string \<Rightarrow> triggerMatch option" where
  "specDetectBlock beforeCursor =
     (case regexMatch headingRegex beforeCursor of
        Some m \<Rightarrow> Some (HeadingMatch (length (matchGroup m 1)) (matchGroup m 2))
      | None \<Rightarrow>
         (case regexMatch listRegex beforeCursor of
            Some m \<Rightarrow> Some (ListMatch (matchGroup m 1))
          | None \<Rightarrow>
             (case regexMatch blockquoteRegex beforeCursor of
                Some m \<Rightarrow> Some (BlockquoteMatch (matchGroup m 1))
              | None \<Rightarrow> None)))"

text \<open>Inline triggers: bold (asterisks, then underscores) before italic (asterisk, then
  underscore) before inline code.\<close>

definition specDetectInline :: "string \<Rightarrow> triggerMatch option" where
  "specDetectInline run =
     (case regexMatch boldStarRegex run of
        Some m \<Rightarrow> Some (BoldMatch m)
      | None \<Rightarrow>
         (case regexMatch boldUnderscoreRegex run of
            Some m \<Rightarrow> Some (BoldMatch m)
          | None \<Rightarrow>
             (case regexMatch italicStarRegex run of
                Some m \<Rightarrow> Some (ItalicMatch m)
              | None \<Rightarrow>
                 (case regexMatch italicUnderscoreRegex run of
                    Some m \<Rightarrow> Some (ItalicMatch m)
                  | None \<Rightarrow>
                     (case regexMatch codeRegex run of
                        Some m \<Rightarrow> Some (CodeMatch m)
                      | None \<Rightarrow> None)))))"

text \<open>A typed space runs the block triggers on the text before the caret; any other
  typed text runs the inline triggers on the whole text run. The result is the text node,
  the text behind the caret and the match.\<close>

definition specDetect :: "inputEvent \<Rightarrow> editor \<Rightarrow> (nid \<times> string \<times> triggerMatch) option" where
  "specDetect e st =
     (case caretRun st of
        None \<Rightarrow> None
      | Some (t, tc, off) \<Rightarrow>
          if inputType e = ''insertText'' \<and> data e = Some '' ''
          then map_option (\<lambda>tm. (t, drop off tc, tm)) (specDetectBlock (take off tc))
          else if inputType e = ''insertText''
          then map_option (\<lambda>tm. (t, [], tm)) (specDetectInline tc)
          else None)"

definition specApplyTransform :: "nid \<Rightarrow> string \<Rightarrow> triggerMatch \<Rightarrow> editor \<Rightarrow> domError + editor" where
  "specApplyTransform t afterText tm st =
     (case tm of
        HeadingMatch level txt \<Rightarrow> replaceWithHeading t level txt afterText st
      | ListMatch txt \<Rightarrow> replaceWithList t txt afterText st
      | BlockquoteMatch txt \<Rightarrow> replaceWithBlockquote t txt afterText st
      | BoldMatch m \<Rightarrow> replaceWithBold t m st
      | ItalicMatch m \<Rightarrow> replaceWithItalic t m st
      | CodeMatch m \<Rightarrow> replaceWithCode t m st)"


section \<open>The matcher\<close>

lemma tryDown_None_iff:
  "tryDown f lo hi = None \<longleftrightarrow> (\<forall>n. lo \<le> n \<and> n \<le> hi \<longrightarrow> f n = None)"
proof (induction hi)
  case 0
  then show ?case by auto
next
  case (Suc hi)
  show ?case
  proof (cases "lo \<le> Suc hi")
    case False
    then show ?thesis by auto
  next
    case True
    show ?thesis
    proof (cases "f (Suc hi)")
      case (Some z)
      with True show ?thesis by auto
    next
      case None
      have "(\<forall>n. lo \<le> n \<and> n \<le> Suc hi \<longrightarrow> f n = None) \<longleftrightarrow> (\<forall>n. lo \<le> n \<and> n \<le> hi \<longrightarrow> f n = None)"
        using None by (auto simp: le_Suc_eq)
      with None True Suc show ?thesis by simp
    qed
  qed
qed

lemma tryDown_Some_iff:
  "tryDown f lo hi = Some y \<longleftrightarrow>
     (\<exists>n. lo \<le> n \<and> n \<le> hi \<and> f n = Some y \<and> (\<forall>m. n < m \<and> m \<le> hi \<longrightarrow> f m = None))"
proof (induction hi)
  case 0
  then show ?case by auto
next
  case (Suc hi)
  show ?case
  proof (cases "lo \<le> Suc hi")
    case False
    then show ?thesis by auto
  next
    case True
    show ?thesis
    proof (cases "f (Suc hi)")
      case (Some z)
      have "(\<exists>n. lo \<le> n \<and> n \<le> Suc hi \<and> f n = Some y \<and> (\<forall>m. n < m \<and> m \<le> Suc hi \<longrightarrow> f m = None))
            \<longleftrightarrow> z = y"
      proof
        assume "\<exists>n. lo \<le> n \<and> n \<le> Suc hi \<and> f n = Some y \<and> (\<forall>m. n < m \<and> m \<le> Suc hi \<longrightarrow> f m = None)"
        then obtain n where n: "n \<le> Suc hi" "f n = Some y" "\<forall>m. n < m \<and> m \<le> Suc hi \<longrightarrow> f m = None"
          by blast
        have "n = Suc hi"
        proof (rule ccontr)
          assume "n \<noteq> Suc hi"
          with n(1) have "n < Suc hi" by simp
          with n(3) have "f (Suc hi) = None" by simp
          with Some show False by simp
        qed
        with n(2) Some show "z = y" by simp
      next
        assume "z = y"
        with Some True show "\<exists>n. lo \<le> n \<and> n \<le> Suc hi \<and> f n = Some y \<and> (\<forall>m. n < m \<and> m \<le> Suc hi \<longrightarrow> f m = None)"
          by (intro exI[of _ "Suc hi"]) auto
      qed
      with Some True show ?thesis by auto
    next
      case None
      have "(\<exists>n. lo \<le> n \<and> n \<le> Suc hi \<and> f n = Some y \<and> (\<forall>m. n < m \<and> m \<le> Suc hi \<longrightarrow> f m = None))
            \<longleftrightarrow> (\<exists>n. lo \<le> n \<and> n \<le> hi \<and> f n = Some y \<and> (\<forall>m. n < m \<and> m \<le> hi \<longrightarrow> f m = None))"
        (is "?L \<longleftrightarrow> ?R")
      proof
        assume ?L
        then obtain n where n: "lo \<le> n" "n \<le> Suc hi" "f n = Some y" "\<forall>m. n < m \<and> m \<le> Suc hi \<longrightarrow> f m = None"
          by blast
        from n(3) None have "n \<noteq> Suc hi" by auto
        with n(2) have "n \<le> hi" by simp
        with n show ?R by auto
      next
        assume ?R
        then obtain n where n: "lo \<le> n" "n \<le> hi" "f n = Some y" "\<forall>m. n < m \<and> m \<le> hi \<longrightarrow> f m = None"
          by blast
        have "\<forall>m. n < m \<and> m \<le> Suc hi \<longrightarrow> f m = None"
          using n(4) None by (auto simp: le_Suc_eq)
        with n show ?L by (intro exI[of _ n]) auto
      qed
      with None True Suc show ?thesis by simp
    qed
  qed
qed

lemma take_le_takeWhile:
  "n \<le> length (takeWhile P xs) \<Longrightarrow> take n xs = take n (takeWhile P xs)"
proof -
  assume n: "n \<le> length (takeWhile P xs)"
  have "take n xs = take n (takeWhile P xs @ dropWhile P xs)" by simp
  also have "\<dots> = take n (takeWhile P xs)" using n by (simp del: takeWhile_dropWhile_id)
  finally show ?thesis .
qed

lemma take_le_takeWhile_all:
  assumes "n \<le> length (takeWhile P xs)"
  shows "\<forall>c\<in>set (take n xs). P c"
proof
  fix c assume "c \<in> set (take n xs)"
  then have "c \<in> set (take n (takeWhile P xs))"
    using take_le_takeWhile[OF assms] by simp
  then have "c \<in> set (takeWhile P xs)" by (rule in_set_takeD)
  then show "P c" by (rule set_takeWhileD[THEN conjunct2])
qed

lemma length_takeWhile_ge:
  "\<forall>c\<in>set xs. P c \<Longrightarrow> length xs \<le> length (takeWhile P (xs @ ys))"
  by (simp add: takeWhile_append2)

lemma matchAtoms_Rep:
  "matchAtoms (Rep cap cls lo hi # as) s pos caps =
     tryDown (\<lambda>n. matchAtoms as s (pos + n) (if cap then caps @ [take n (drop pos s)] else caps))
       lo (repMost cls hi s pos)"
  by (simp add: repMost_def Let_def)

lemma repMost_le: "repMost cls hi s pos \<le> length s - pos"
proof -
  have "length (takeWhile (inClass cls) (drop pos s)) \<le> length (drop pos s)"
    by (rule length_takeWhile_le)
  then show ?thesis by (auto simp: repMost_def split: option.splits)
qed

lemma repMost_all:
  assumes "n \<le> repMost cls hi s pos"
  shows "\<forall>c\<in>set (take n (drop pos s)). inClass cls c"
proof -
  from assms have "n \<le> length (takeWhile (inClass cls) (drop pos s))"
    by (auto simp: repMost_def split: option.splits)
  then show ?thesis by (rule take_le_takeWhile_all)
qed

lemma repMost_hi: "n \<le> repMost cls (Some h) s pos \<Longrightarrow> n \<le> h"
  by (simp add: repMost_def)

lemma repMost_geI:
  assumes "drop pos s = xs @ ys" "\<forall>c\<in>set xs. inClass cls c" "case hi of None \<Rightarrow> True | Some h \<Rightarrow> length xs \<le> h"
  shows "length xs \<le> repMost cls hi s pos"
  using assms length_takeWhile_ge[of xs "inClass cls" ys]
  by (auto simp: repMost_def split: option.splits)

lemma matchAtoms_Rep_SomeD:
  assumes "matchAtoms (Rep cap cls lo hi # as) s pos caps = Some r"
  shows "\<exists>n. lo \<le> n \<and> n \<le> repMost cls hi s pos
            \<and> matchAtoms as s (pos + n) (if cap then caps @ [take n (drop pos s)] else caps) = Some r"
proof -
  let ?F = "\<lambda>n. matchAtoms as s (pos + n) (if cap then caps @ [take n (drop pos s)] else caps)"
  from assms have td: "tryDown ?F lo (repMost cls hi s pos) = Some r"
    by (simp only: matchAtoms_Rep)
  from tryDown_Some_iff[THEN iffD1, OF td]
  obtain n where "lo \<le> n" "n \<le> repMost cls hi s pos" "?F n = Some r"
    by blast
  then show ?thesis by blast
qed

lemma matchAtoms_Rep_SomeI:
  assumes "lo \<le> n" "n \<le> repMost cls hi s pos"
    "matchAtoms as s (pos + n) (if cap then caps @ [take n (drop pos s)] else caps) \<noteq> None"
  shows "matchAtoms (Rep cap cls lo hi # as) s pos caps \<noteq> None"
proof
  let ?F = "\<lambda>n. matchAtoms as s (pos + n) (if cap then caps @ [take n (drop pos s)] else caps)"
  assume "matchAtoms (Rep cap cls lo hi # as) s pos caps = None"
  then have td: "tryDown ?F lo (repMost cls hi s pos) = None"
    by (simp only: matchAtoms_Rep)
  from tryDown_None_iff[THEN iffD1, OF td] assms(1,2)
  have "?F n = None" by blast
  with assms(3) show False by simp
qed

lemma matchAtoms_bounds:
  "matchAtoms as s pos caps = Some (e, caps') \<Longrightarrow> pos \<le> length s \<Longrightarrow> pos \<le> e \<and> e \<le> length s"
proof (induction as arbitrary: pos caps)
  case Nil
  then show ?case by simp
next
  case (Cons a as)
  show ?case
  proof (cases a)
    case (Rep cap cls lo hi)
    with Cons.prems(1) obtain n where n: "n \<le> repMost cls hi s pos"
      "matchAtoms as s (pos + n) (if cap then caps @ [take n (drop pos s)] else caps) = Some (e, caps')"
      using matchAtoms_Rep_SomeD by blast
    from n(1) repMost_le[of cls hi s pos] Cons.prems(2) have "pos + n \<le> length s" by simp
    with Cons.IH[OF n(2)] show ?thesis by simp
  qed (use Cons in \<open>auto split: if_splits\<close>)
qed

lemma firstSome_None: "(\<And>x. x \<in> set xs \<Longrightarrow> f x = None) \<Longrightarrow> firstSome f xs = None"
  by (induction xs) auto

lemma firstSome_SomeD: "firstSome f xs = Some y \<Longrightarrow> \<exists>x\<in>set xs. f x = Some y"
  by (induction xs) (auto split: option.splits)

lemma regexMatch_Bol: "regexMatch (Bol # as) s = matchFrom (Bol # as) s 0"
proof -
  have "firstSome (matchFrom (Bol # as) s) [Suc 0..<Suc (length s)] = None"
    by (rule firstSome_None) (auto simp: matchFrom_def)
  moreover have "[0..<Suc (length s)] = 0 # [Suc 0..<Suc (length s)]"
    by (rule upt_conv_Cons) simp
  ultimately show ?thesis
    unfolding regexMatch_def by (simp del: upt_Suc split: option.splits)
qed

lemma regexMatch_SomeD:
  assumes "regexMatch as s = Some m"
  shows "m_index m \<le> length s \<and> m_index m + length (m_full m) \<le> length s
         \<and> m_full m = take (length (m_full m)) (drop (m_index m) s)"
proof -
  from assms have "\<exists>i\<in>set [0..<Suc (length s)]. matchFrom as s i = Some m"
    unfolding regexMatch_def by (rule firstSome_SomeD)
  then obtain i where "i \<in> set [0..<Suc (length s)]" and i2: "matchFrom as s i = Some m"
    by blast
  then have i1: "i \<le> length s" by (simp del: upt_Suc)
  from i2 obtain e caps where e: "matchAtoms as s i [] = Some (e, caps)"
    and m: "m = \<lparr>m_index = i, m_full = take (e - i) (drop i s), m_groups = caps\<rparr>"
    unfolding matchFrom_def by (cases "matchAtoms as s i []") auto
  from matchAtoms_bounds[OF e i1] have ie: "i \<le> e" "e \<le> length s" by auto
  have len: "length (m_full m) = e - i" using m ie by simp
  show ?thesis unfolding len using m ie i1 by simp
qed

lemma Rep_cap:
  "matchAtoms (Rep True cls lo hi # as) s pos caps =
     tryDown (\<lambda>n. matchAtoms as s (pos + n) (caps @ [take n (drop pos s)])) lo (repMost cls hi s pos)"
  by (simp add: repMost_def Let_def)

lemma Rep_nocap:
  "matchAtoms (Rep False cls lo hi # as) s pos caps =
     tryDown (\<lambda>n. matchAtoms as s (pos + n) caps) lo (repMost cls hi s pos)"
  by (simp add: repMost_def Let_def)

lemma Rep_cap_SomeI:
  assumes "lo \<le> n" "n \<le> repMost cls hi s pos"
    "matchAtoms as s (pos + n) (caps @ [take n (drop pos s)]) \<noteq> None"
  shows "matchAtoms (Rep True cls lo hi # as) s pos caps \<noteq> None"
proof
  let ?F = "\<lambda>n. matchAtoms as s (pos + n) (caps @ [take n (drop pos s)])"
  assume "matchAtoms (Rep True cls lo hi # as) s pos caps = None"
  then have td: "tryDown ?F lo (repMost cls hi s pos) = None"
    by (simp only: Rep_cap)
  from tryDown_None_iff[THEN iffD1, OF td] assms(1,2)
  have "?F n = None" by blast
  with assms(3) show False by simp
qed

lemma Rep_nocap_SomeI:
  assumes "lo \<le> n" "n \<le> repMost cls hi s pos"
    "matchAtoms as s (pos + n) caps \<noteq> None"
  shows "matchAtoms (Rep False cls lo hi # as) s pos caps \<noteq> None"
proof
  let ?F = "\<lambda>n. matchAtoms as s (pos + n) caps"
  assume "matchAtoms (Rep False cls lo hi # as) s pos caps = None"
  then have td: "tryDown ?F lo (repMost cls hi s pos) = None"
    by (simp only: Rep_nocap)
  from tryDown_None_iff[THEN iffD1, OF td] assms(1,2)
  have "?F n = None" by blast
  with assms(3) show False by simp
qed

lemma Rep_cap_SomeD:
  assumes "matchAtoms (Rep True cls lo hi # as) s pos caps = Some r"
  shows "\<exists>n. lo \<le> n \<and> n \<le> repMost cls hi s pos
            \<and> matchAtoms as s (pos + n) (caps @ [take n (drop pos s)]) = Some r
            \<and> (\<forall>m. n < m \<and> m \<le> repMost cls hi s pos \<longrightarrow>
                  matchAtoms as s (pos + m) (caps @ [take m (drop pos s)]) = None)"
proof -
  let ?F = "\<lambda>n. matchAtoms as s (pos + n) (caps @ [take n (drop pos s)])"
  from assms have td: "tryDown ?F lo (repMost cls hi s pos) = Some r"
    by (simp only: Rep_cap)
  from tryDown_Some_iff[THEN iffD1, OF td] show ?thesis .
qed

lemma Rep_nocap_SomeD:
  assumes "matchAtoms (Rep False cls lo hi # as) s pos caps = Some r"
  shows "\<exists>n. lo \<le> n \<and> n \<le> repMost cls hi s pos \<and> matchAtoms as s (pos + n) caps = Some r
            \<and> (\<forall>m. n < m \<and> m \<le> repMost cls hi s pos \<longrightarrow> matchAtoms as s (pos + m) caps = None)"
proof -
  let ?F = "\<lambda>n. matchAtoms as s (pos + n) caps"
  from assms have td: "tryDown ?F lo (repMost cls hi s pos) = Some r"
    by (simp only: Rep_nocap)
  from tryDown_Some_iff[THEN iffD1, OF td] show ?thesis .
qed

section \<open>The heading pattern\<close>

lemma all_same_replicate: "\<forall>c\<in>set xs. c = a \<Longrightarrow> xs = replicate (length xs) a"
  by (induction xs) auto

lemma matchFrom_SomeD:
  assumes "matchFrom as s i = Some m"
  shows "\<exists>e caps. matchAtoms as s i [] = Some (e, caps)
           \<and> m = \<lparr>m_index = i, m_full = take (e - i) (drop i s), m_groups = caps\<rparr>"
  using assms unfolding matchFrom_def by (cases "matchAtoms as s i []") auto

lemma matchFrom_eq_None: "(matchFrom as s i = None) = (matchAtoms as s i [] = None)"
  unfolding matchFrom_def by (cases "matchAtoms as s i []") auto

lemma headingMatch_SomeD:
  assumes "regexMatch headingRegex s = Some m"
  shows "\<exists>n ws t. s = replicate n (CHR ''#'') @ ws @ t \<and> 1 \<le> n \<and> n \<le> 6
           \<and> ws \<noteq> [] \<and> (\<forall>c\<in>set ws. isWhiteSpace c)
           \<and> t \<noteq> [] \<and> (\<forall>c\<in>set t. \<not> isLineTerminator c)
           \<and> m = \<lparr>m_index = 0, m_full = s, m_groups = [replicate n (CHR ''#''), t]\<rparr>"
proof -
  let ?R1 = "Rep True (Lit (CHR ''#'')) 1 (Some 6)"
  let ?R2 = "Rep False WhiteSpaceClass 1 None"
  let ?R3 = "Rep True Dot 1 None"
  have re: "headingRegex = Bol # ?R1 # ?R2 # ?R3 # [Eol]" by (simp add: headingRegex_def)
  from assms have "matchFrom headingRegex s 0 = Some m"
    unfolding re regexMatch_Bol .
  from matchFrom_SomeD[OF this] obtain e caps where
    ma: "matchAtoms headingRegex s 0 [] = Some (e, caps)"
    and m: "m = \<lparr>m_index = 0, m_full = take (e - 0) (drop 0 s), m_groups = caps\<rparr>" by blast
  from ma have "matchAtoms (?R1 # ?R2 # ?R3 # [Eol]) s 0 [] = Some (e, caps)"
    unfolding re by simp
  from Rep_cap_SomeD[OF this] obtain n where n: "1 \<le> n" "n \<le> repMost (Lit (CHR ''#'')) (Some 6) s 0"
    and m2: "matchAtoms (?R2 # ?R3 # [Eol]) s n [take n s] = Some (e, caps)" by auto
  from Rep_nocap_SomeD[OF m2] obtain j where j: "1 \<le> j" "j \<le> repMost WhiteSpaceClass None s n"
    and m3: "matchAtoms (?R3 # [Eol]) s (n + j) [take n s] = Some (e, caps)" by auto
  from Rep_cap_SomeD[OF m3] obtain k where k: "1 \<le> k" "k \<le> repMost Dot None s (n + j)"
    and m4: "matchAtoms [Eol] s (n + j + k) [take n s, take k (drop (n + j) s)] = Some (e, caps)" by auto
  from m4 have len: "n + j + k = length s" and e: "e = n + j + k"
    and caps: "caps = [take n s, take k (drop (n + j) s)]"
    by (auto split: if_splits)
  have n6: "n \<le> 6" using n(2) by (rule repMost_hi)
  have "\<forall>c\<in>set (take n s). c = CHR ''#''"
    using repMost_all[OF n(2)] by simp
  from all_same_replicate[OF this] len have hs: "take n s = replicate n (CHR ''#'')" by simp
  let ?ws = "take j (drop n s)"
  let ?t = "drop (n + j) s"
  have ws: "\<forall>c\<in>set ?ws. isWhiteSpace c" using repMost_all[OF j(2)] by simp
  have wsne: "?ws \<noteq> []" using j(1) len k(1) by auto
  have tk: "take k (drop (n + j) s) = ?t" using len by simp
  have t: "\<forall>c\<in>set ?t. \<not> isLineTerminator c" using repMost_all[OF k(2)] tk by simp
  have tne: "?t \<noteq> []" using k(1) len by auto
  have e3: "drop j (drop n s) = ?t" by (simp add: add.commute)
  have "replicate n (CHR ''#'') @ ?ws @ ?t = take n s @ (take j (drop n s) @ drop j (drop n s))"
    by (simp only: hs e3)
  also have "\<dots> = s" by (simp only: append_take_drop_id)
  finally have s: "s = replicate n (CHR ''#'') @ ?ws @ ?t" by (rule sym)
  have "m = \<lparr>m_index = 0, m_full = s, m_groups = [replicate n (CHR ''#''), ?t]\<rparr>"
    using m e len caps hs tk by simp
  with s n(1) n6 ws wsne t tne show ?thesis by blast
qed

lemma headingMatch_SomeI:
  assumes s: "s = replicate n (CHR ''#'') @ ws @ t" and n: "1 \<le> n" "n \<le> 6"
    and ws: "ws \<noteq> []" "\<forall>c\<in>set ws. isWhiteSpace c"
    and t: "t \<noteq> []" "\<forall>c\<in>set t. \<not> isLineTerminator c"
  shows "regexMatch headingRegex s \<noteq> None"
proof -
  let ?R1 = "Rep True (Lit (CHR ''#'')) 1 (Some 6)"
  let ?R2 = "Rep False WhiteSpaceClass 1 None"
  let ?R3 = "Rep True Dot 1 None"
  have re: "headingRegex = Bol # ?R1 # ?R2 # ?R3 # [Eol]" by (simp add: headingRegex_def)
  have d0: "drop 0 s = replicate n (CHR ''#'') @ (ws @ t)" using s by simp
  have dn: "drop n s = ws @ t" using s by simp
  have dnj: "drop (n + length ws) s = t @ []" using s by (simp add: add.commute)
  have b1: "length (replicate n (CHR ''#'')) \<le> repMost (Lit (CHR ''#'')) (Some 6) s 0"
    by (rule repMost_geI[OF d0]) (use n in auto)
  have b2: "length ws \<le> repMost WhiteSpaceClass None s n"
    by (rule repMost_geI[OF dn]) (use ws in auto)
  have b3: "length t \<le> repMost Dot None s (n + length ws)"
    by (rule repMost_geI[OF dnj]) (use t in auto)
  have len: "n + length ws + length t = length s" using s by simp
  have a4: "matchAtoms [Eol] s (n + length ws + length t)
          ([take n (drop 0 s)] @ [take (length t) (drop (n + length ws) s)]) \<noteq> None"
    using len by simp
  have t1: "1 \<le> length t" using t(1) by (simp add: Suc_le_eq)
  have a3: "matchAtoms (?R3 # [Eol]) s (n + length ws) [take n (drop 0 s)] \<noteq> None"
    by (rule Rep_cap_SomeI[OF t1 b3 a4])
  have w1: "1 \<le> length ws" using ws(1) by (simp add: Suc_le_eq)
  have a2: "matchAtoms (?R2 # ?R3 # [Eol]) s n [take n (drop 0 s)] \<noteq> None"
    by (rule Rep_nocap_SomeI[OF w1 b2 a3])
  have a2': "matchAtoms (?R2 # ?R3 # [Eol]) s (0 + n) ([] @ [take n (drop 0 s)]) \<noteq> None"
    using a2 by (simp only: add_0 append_Nil simp_thms)
  have b1': "n \<le> repMost (Lit (CHR ''#'')) (Some 6) s 0" using b1 by simp
  have "matchAtoms (?R1 # ?R2 # ?R3 # [Eol]) s 0 [] \<noteq> None"
    by (rule Rep_cap_SomeI[OF n(1) b1' a2'])
  then have "matchAtoms headingRegex s 0 [] \<noteq> None" unfolding re by simp
  then have "matchFrom headingRegex s 0 \<noteq> None" by (simp add: matchFrom_eq_None)
  then show ?thesis unfolding re regexMatch_Bol .
qed

section \<open>Operations on the document tree\<close>

lemma create_set_text:
  "setTextContent (length ns) txt (ns @ [Element tag []]) = ns @ elemNodes tag (length ns) txt"
  by (simp add: setTextContent_def nodeAt_def elemNodes_def)

lemma replaceWithHeading_splice:
  "replaceWithHeading t level txt after st =
     spliceBlock t (length (doc st)) (length (doc st)) after
       (st\<lparr>isProcessing := True,
           doc := doc st @ elemNodes (''h'' @ numberToString level) (length (doc st)) txt\<rparr>)"
  unfolding replaceWithHeading_def spliceBlock_def createElement_def Let_def prod.case create_set_text
  by (simp cong: option.case_cong if_cong)

lemma replaceWithBlockquote_splice:
  "replaceWithBlockquote t txt after st =
     spliceBlock t (length (doc st)) (length (doc st)) after
       (st\<lparr>isProcessing := True,
           doc := doc st @ elemNodes ''blockquote'' (length (doc st)) txt\<rparr>)"
  unfolding replaceWithBlockquote_def spliceBlock_def createElement_def Let_def prod.case create_set_text
  by (simp cong: option.case_cong if_cong)

lemma length_elemNodes: "length (elemNodes tag n txt) = (if txt = [] then 1 else 2)"
  by (simp add: elemNodes_def)

lemma replaceWithList_splice:
  "replaceWithList t txt after st =
     spliceBlock t (length (doc st) + length (elemNodes ''li'' (length (doc st)) txt)) (length (doc st)) after
       (st\<lparr>isProcessing := True,
           doc := doc st @ elemNodes ''li'' (length (doc st)) txt @ [Element ''ul'' [length (doc st)]]\<rparr>)"
proof -
  have ap: "appendChild (length xs) n (xs @ [Element tag []]) = Inr (xs @ [Element tag [n]])"
    for xs :: "node list" and n tag
    by (simp add: appendChild_def nodeAt_def)
  show ?thesis
    unfolding replaceWithList_def spliceBlock_def createElement_def Let_def prod.case create_set_text ap
    by (simp add: bindE_def cong: option.case_cong if_cong)
qed

lemma insertBeforeL_split:
  "t \<notin> set xs \<Longrightarrow> insertBeforeL new t (xs @ t # ys) = xs @ new # t # ys"
  by (induction xs) auto

lemma remove1_split: "t \<notin> set xs \<Longrightarrow> remove1 t (xs @ t # ys) = xs @ ys"
  by (induction xs) auto

lemma parentNode_SomeD:
  assumes "parentNode ns t = Some p"
  shows "p < length ns \<and> t \<in> set (childNodes ns p) \<and> (\<forall>q<p. t \<notin> set (childNodes ns q))"
proof -
  from assms obtain i where i: "i < length [0..<length ns]"
    "t \<in> set (childNodes ns ([0..<length ns] ! i))" "p = [0..<length ns] ! i"
    "\<forall>j<i. t \<notin> set (childNodes ns ([0..<length ns] ! j))"
    unfolding parentNode_def find_Some_iff by blast
  then have "p = i" "i < length ns" by auto
  with i show ?thesis by auto
qed

lemma parentNode_SomeI:
  assumes "p < length ns" "t \<in> set (childNodes ns p)" "\<forall>q<p. t \<notin> set (childNodes ns q)"
  shows "parentNode ns t = Some p"
  unfolding parentNode_def find_Some_iff using assms by (intro exI[of _ p]) auto

lemma parentNode_None_iff:
  "parentNode ns t = None \<longleftrightarrow> (\<forall>q<length ns. t \<notin> set (childNodes ns q))"
  unfolding parentNode_def find_None_iff by auto

lemma childNodes_Element: "nodeAt ns p = Some (Element tag cs) \<Longrightarrow> childNodes ns p = cs"
  by (simp add: childNodes_def)


lemma childNodes_append: "p < length ns \<Longrightarrow> childNodes (ns @ ms) p = childNodes ns p"
  by (simp add: childNodes_def nodeAt_def nth_append)

lemma parentNode_append:
  assumes "parentNode ns t = Some p"
  shows "parentNode (ns @ ms) t = Some p"
proof -
  from parentNode_SomeD[OF assms] have p: "p < length ns" "t \<in> set (childNodes ns p)"
    "\<forall>q<p. t \<notin> set (childNodes ns q)" by auto
  show ?thesis
    by (rule parentNode_SomeI) (use p in \<open>auto simp: childNodes_append\<close>)
qed

lemma nodeAt_update_append:
  "p < length ns \<Longrightarrow> nodeAt (ns[p := v] @ ms) p = Some v"
  by (simp add: nodeAt_def nth_append)

lemma insertBefore_at:
  assumes "p < length ns" "t \<notin> set cs1"
  shows "insertBefore p new t (ns[p := Element tag (cs1 @ t # cs2)] @ ms)
         = Inr (ns[p := Element tag (cs1 @ new # t # cs2)] @ ms)"
  using assms
  by (simp add: insertBefore_def nodeAt_update_append insertBeforeL_split list_update_append1)

lemma removeChild_at:
  assumes "p < length ns" "t \<notin> set cs1"
  shows "removeChild p t (ns[p := Element tag (cs1 @ t # cs2)] @ ms)
         = Inr (ns[p := Element tag (cs1 @ cs2)] @ ms)"
  using assms
  by (simp add: removeChild_def nodeAt_update_append remove1_split list_update_append1)

lemma nodeAt_SomeD: "nodeAt ns p = Some v \<Longrightarrow> p < length ns \<and> ns ! p = v"
  by (auto simp: nodeAt_def split: if_splits)

lemma doc_as_update: "nodeAt ns p = Some v \<Longrightarrow> ns = ns[p := v]"
  by (auto simp: nodeAt_def split: if_splits)

lemma spliceBlock_parent:
  assumes par: "parentNode (ns @ ms) t = Some p"
    and node: "nodeAt ns p = Some (Element tag (xs @ t # ys))"
    and xs: "t \<notin> set xs"
    and t: "t < length ns" and el: "length ns \<le> el"
    and d: "doc st2 = ns @ ms"
  shows "spliceBlock t el host after st2 =
     Inr (st2\<lparr>doc := ns[p := Element tag (xs @ el # afterIds after (length ns + length ms) @ ys)]
                     @ ms @ afterNodes after,
              selection := replaceRanges
                (ns[p := Element tag (xs @ el # afterIds after (length ns + length ms) @ ys)]
                     @ ms @ afterNodes after) (documentNode st2)
                (collapsedAt host (length (childNodes
                   (ns[p := Element tag (xs @ el # afterIds after (length ns + length ms) @ ys)]
                     @ ms @ afterNodes after) host)))
                (selection st2),
              resetTimers := Suc (resetTimers st2)\<rparr>)"
proof -
  from nodeAt_SomeD[OF node] have p: "p < length ns" by simp
  have d0: "doc st2 = ns[p := Element tag (xs @ t # ys)] @ ms"
    using doc_as_update[OF node] d by simp
  have par': "parentNode (doc st2) t = Some p" using par d by simp
  have i1: "insertBefore p el t (doc st2) = Inr (ns[p := Element tag (xs @ el # t # ys)] @ ms)"
    unfolding d0 by (rule insertBefore_at[OF p xs])
  have elt: "el \<noteq> t" using t el by simp
  show ?thesis
  proof (cases "trim after \<noteq> []")
    case False
    have r: "removeChild p t (ns[p := Element tag ((xs @ [el]) @ t # ys)] @ ms)
             = Inr (ns[p := Element tag ((xs @ [el]) @ ys)] @ ms)"
      by (rule removeChild_at[OF p]) (use xs elt in auto)
    show ?thesis
      unfolding spliceBlock_def par' using i1 r False
      by (simp add: bindE_def afterIds_def afterNodes_def)
  next
    case True
    let ?a = "length ns + length ms"
    have at: "?a \<noteq> t" using t by simp
    have i2: "insertBefore p ?a t (ns[p := Element tag ((xs @ [el]) @ t # ys)] @ (ms @ [Text after]))
             = Inr (ns[p := Element tag ((xs @ [el]) @ ?a # t # ys)] @ (ms @ [Text after]))"
      by (rule insertBefore_at[OF p]) (use xs elt in auto)
    have r: "removeChild p t (ns[p := Element tag ((xs @ [el, ?a]) @ t # ys)] @ (ms @ [Text after]))
             = Inr (ns[p := Element tag ((xs @ [el, ?a]) @ ys)] @ (ms @ [Text after]))"
      by (rule removeChild_at[OF p]) (use xs elt at in auto)
    show ?thesis
      unfolding spliceBlock_def par' using i1 i2 r True
      by (simp add: bindE_def afterIds_def afterNodes_def createTextNode_def)
  qed
qed

lemma matchGroup_0: "matchGroup m 0 = m_full m"
  by (simp add: matchGroup_def)

lemma replaceWithBold_splice:
  "replaceWithBold t m st =
     spliceInline ''strong'' t (take (m_index m) (textContent (doc st) t)) (matchGroup m 1)
       (drop (m_index m + length (m_full m)) (textContent (doc st) t))
       (st\<lparr>isProcessing := True\<rparr>)"
  unfolding replaceWithBold_def spliceInline_def Let_def matchGroup_0
  by (simp cong: option.case_cong if_cong)

lemma replaceWithItalic_splice:
  "replaceWithItalic t m st =
     spliceInline ''em'' t (take (m_index m) (textContent (doc st) t)) (matchGroup m 1)
       (drop (m_index m + length (m_full m)) (textContent (doc st) t))
       (st\<lparr>isProcessing := True\<rparr>)"
  unfolding replaceWithItalic_def spliceInline_def Let_def matchGroup_0
  by (simp cong: option.case_cong if_cong)

lemma replaceWithCode_splice:
  "replaceWithCode t m st =
     spliceInline ''code'' t (take (m_index m) (textContent (doc st) t)) (matchGroup m 1)
       (drop (m_index m + length (m_full m)) (textContent (doc st) t))
       (st\<lparr>isProcessing := True\<rparr>)"
  unfolding replaceWithCode_def spliceInline_def Let_def matchGroup_0
  by (simp cong: option.case_cong if_cong)

lemma textContent_Text: "nodeAt ns t = Some (Text tc) \<Longrightarrow> textContent ns t = tc"
  by (cases "length ns") (auto simp: textContent_def)

lemma wellFormedD:
  "wellFormed ns \<Longrightarrow> q < length ns \<Longrightarrow> c \<in> set (childNodes ns q) \<Longrightarrow> c < length ns"
  by (auto simp: wellFormed_def list_all_iff)

lemma childNodes_update_other:
  "q \<noteq> p \<Longrightarrow> q < length ns \<Longrightarrow> childNodes (ns[p := v] @ ms) q = childNodes ns q"
  by (simp add: childNodes_def nodeAt_def nth_append)

lemma childNodes_update_same:
  "p < length ns \<Longrightarrow> childNodes (ns[p := Element tag cs] @ ms) p = cs"
  by (simp add: childNodes_def nodeAt_def nth_append)

lemma indexOf_split: "n \<notin> set xs \<Longrightarrow> indexOf n (xs @ n # ys) = length xs"
  by (induction xs) (auto simp: indexOf_def)

lemma rangeAfter_at:
  assumes wf: "wellFormed ns" and p: "p < length ns" and el: "length ns \<le> el"
    and cs: "set cs1 \<subseteq> {..<el}"
  shows "rangeAfter (ns[p := Element tag (cs1 @ el # cs2)] @ ms) el
         = Inr (collapsedAt p (Suc (length cs1)))"
proof -
  let ?D = "ns[p := Element tag (cs1 @ el # cs2)] @ ms"
  have "parentNode ?D el = Some p"
  proof (rule parentNode_SomeI)
    show "p < length ?D" using p by simp
    show "el \<in> set (childNodes ?D p)" using p by (simp add: childNodes_update_same)
    show "\<forall>q<p. el \<notin> set (childNodes ?D q)"
    proof (intro allI impI)
      fix q assume q: "q < p"
      then have "childNodes ?D q = childNodes ns q"
        using p by (simp add: childNodes_update_other)
      moreover have "q < length ns" using q p by simp
      then have "\<forall>c\<in>set (childNodes ns q). c < length ns"
        using wellFormedD[OF wf] by blast
      ultimately show "el \<notin> set (childNodes ?D q)" using el by auto
    qed
  qed
  moreover have "el \<notin> set cs1" using cs by auto
  ultimately show ?thesis
    using p by (simp add: rangeAfter_def childNodes_update_same indexOf_split)
qed

lemma spliceInline_parent:
  assumes par: "parentNode ns t = Some p"
    and node: "nodeAt ns p = Some (Element ptag (xs @ t # ys))"
    and xs: "t \<notin> set xs"
    and t: "t < length ns"
    and wf: "wellFormed ns"
    and d: "doc st = ns"
    and el: "el = length ns + length (plainNodes before)"
    and E: "E = elemNodes tag el inner"
  shows "spliceInline tag t before inner after st =
     Inr (st\<lparr>doc := ns[p := Element ptag (xs @ plainIds before (length ns) @ el
                            # plainIds after (el + length E) @ ys)]
                    @ plainNodes before @ E @ plainNodes after,
             selection := replaceRanges
                (ns[p := Element ptag (xs @ plainIds before (length ns) @ el
                            # plainIds after (el + length E) @ ys)]
                    @ plainNodes before @ E @ plainNodes after) (documentNode st)
                (collapsedAt p (Suc (length xs + length (plainNodes before)))) (selection st),
             resetTimers := Suc (resetTimers st)\<rparr>)"
proof -
  from nodeAt_SomeD[OF node] have p: "p < length ns" by simp
  have kids: "childNodes ns p = xs @ t # ys" by (rule childNodes_Element[OF node])
  have xsb: "set xs \<subseteq> {..<length ns}"
    using wellFormedD[OF wf p] kids by auto
  let ?B = "plainNodes before" and ?bi = "plainIds before (length ns)"
  let ?A = "plainNodes after" and ?ai = "plainIds after (el + length E)"
  let ?d2 = "ns[p := Element ptag ((xs @ ?bi) @ t # ys)] @ ?B"
  let ?d5 = "ns[p := Element ptag ((xs @ ?bi @ [el]) @ t # ys)] @ (?B @ E)"
  let ?d6 = "ns[p := Element ptag ((xs @ ?bi @ [el] @ ?ai) @ t # ys)] @ (?B @ E @ ?A)"
  let ?d7 = "ns[p := Element ptag ((xs @ ?bi) @ el # (?ai @ ys))] @ (?B @ E @ ?A)"
  have bind: "bindE (Inr x) f = f x" for x :: "'x" and f :: "'x \<Rightarrow> domError + 'y"
    by (simp add: bindE_def)
  \<comment> \<open>the text before the match\<close>
  have s1: "(if before \<noteq> [] then insertBefore p (length ns) t (ns @ [Text before]) else Inr ns)
            = Inr ?d2"
  proof (cases "before = []")
    case True
    then show ?thesis using doc_as_update[OF node] by (simp add: plainNodes_def plainIds_def)
  next
    case False
    have "insertBefore p (length ns) t (ns[p := Element ptag (xs @ t # ys)] @ [Text before])
          = Inr (ns[p := Element ptag (xs @ length ns # t # ys)] @ [Text before])"
      by (rule insertBefore_at[OF p xs])
    then show ?thesis
      using False doc_as_update[OF node] by (simp add: plainNodes_def plainIds_def)
  qed
  have len2: "length ?d2 = el" using el by simp
  have tb: "t \<notin> set (xs @ ?bi)" using xs t by (auto simp: plainIds_def)
  \<comment> \<open>the new element\<close>
  have s2: "setTextContent (length ?d2) inner (?d2 @ [Element tag []]) = ?d2 @ E"
    unfolding E len2[symmetric] by (rule create_set_text)
  have "insertBefore p el t (ns[p := Element ptag ((xs @ ?bi) @ t # ys)] @ (?B @ E))
            = Inr (ns[p := Element ptag ((xs @ ?bi) @ el # t # ys)] @ (?B @ E))"
    by (rule insertBefore_at[OF p tb])
  then have s3: "insertBefore p (length ?d2) t (?d2 @ E) = Inr ?d5"
    unfolding len2 by simp
  have len5: "length ?d5 = el + length E" using el by simp
  have elt: "el \<noteq> t" using el t by simp
  have tbe: "t \<notin> set (xs @ ?bi @ [el])" using tb elt by simp
  \<comment> \<open>the text behind the match\<close>
  have s4: "(if after \<noteq> [] then insertBefore p (length ?d5) t (?d5 @ [Text after]) else Inr ?d5)
            = Inr ?d6"
  proof (cases "after = []")
    case True
    then show ?thesis by (simp add: plainNodes_def plainIds_def)
  next
    case False
    have "insertBefore p (el + length E) t
            (ns[p := Element ptag ((xs @ ?bi @ [el]) @ t # ys)] @ (?B @ E @ [Text after]))
          = Inr (ns[p := Element ptag ((xs @ ?bi @ [el]) @ (el + length E) # t # ys)]
                   @ (?B @ E @ [Text after]))"
      by (rule insertBefore_at[OF p tbe])
    moreover have "plainNodes after = [Text after]" "plainIds after (el + length E) = [el + length E]"
      using False by (simp_all add: plainNodes_def plainIds_def)
    ultimately show ?thesis
      unfolding len5 using False by simp
  qed
  have ta: "t \<notin> set (xs @ ?bi @ [el] @ ?ai)"
    using tbe t el by (auto simp: plainIds_def)
  have "removeChild p t ?d6
            = Inr (ns[p := Element ptag ((xs @ ?bi @ [el] @ ?ai) @ ys)] @ (?B @ E @ ?A))"
    by (rule removeChild_at[OF p ta])
  then have s5: "removeChild p t ?d6 = Inr ?d7" by simp
  have cs: "set (xs @ ?bi) \<subseteq> {..<el}"
    using xsb el by (auto simp: plainIds_def plainNodes_def)
  have "rangeAfter ?d7 el = Inr (collapsedAt p (Suc (length (xs @ ?bi))))"
    by (rule rangeAfter_at[OF wf p _ cs]) (use el in simp)
  then have s6: "rangeAfter ?d7 (length ?d2) = Inr (collapsedAt p (Suc (length (xs @ ?bi))))"
    unfolding len2 .
  have lb: "length ?bi = length ?B" by (simp add: plainIds_def plainNodes_def)
  have "spliceInline tag t before inner after st =
        Inr (st\<lparr>doc := ?d7,
                selection := replaceRanges ?d7 (documentNode st)
                  (collapsedAt p (Suc (length (xs @ ?bi)))) (selection st),
                resetTimers := Suc (resetTimers st)\<rparr>)"
    unfolding spliceInline_def d par option.case Let_def createTextNode_def createElement_def
      prod.case s1 bind s2 s3 s4 s5 s6
    by simp
  then show ?thesis using lb by simp
qed

section \<open>The transforms when the text node has a parent\<close>

lemma childNodes_elemNodes:
  "length ns' = n \<Longrightarrow>
   childNodes (ns' @ elemNodes tag n txt @ ms) n = (if txt = [] then [] else [Suc n])"
  by (auto simp: childNodes_def nodeAt_def elemNodes_def nth_append)

lemma nodeAt_elemNodes:
  "length ns' = n \<Longrightarrow>
   nodeAt (ns' @ elemNodes tag n txt @ ms) n
     = Some (Element tag (if txt = [] then [] else [Suc n]))"
  by (auto simp: nodeAt_def elemNodes_def nth_append)

lemma nodeAt_elemNodes_text:
  "length ns' = n \<Longrightarrow> txt \<noteq> [] \<Longrightarrow>
   nodeAt (ns' @ elemNodes tag n txt @ ms) (Suc n) = Some (Text txt)"
  by (auto simp: nodeAt_def elemNodes_def nth_append)

lemma textContent_elemNodes:
  "length ns' = n \<Longrightarrow> textContent (ns' @ elemNodes tag n txt @ ms) n = txt"
  by (auto simp: textContent_def nodeAt_def elemNodes_def nth_append)

lemma replaceWithHeading_parent:
  assumes par: "parentNode (doc st) t = Some p"
    and node: "nodeAt (doc st) p = Some (Element tag (xs @ t # ys))"
    and xs: "t \<notin> set xs"
    and t: "t < length (doc st)"
    and n: "n = length (doc st)"
    and E: "E = elemNodes (''h'' @ numberToString level) n txt"
  shows "replaceWithHeading t level txt after st =
     Inr (st\<lparr>isProcessing := True,
             doc := (doc st)[p := Element tag (xs @ n # afterIds after (n + length E) @ ys)]
                    @ E @ afterNodes after,
             selection := replaceRanges
                ((doc st)[p := Element tag (xs @ n # afterIds after (n + length E) @ ys)]
                    @ E @ afterNodes after) (documentNode st)
                (collapsedAt n (if txt = [] then 0 else 1)) (selection st),
             resetTimers := Suc (resetTimers st)\<rparr>)"
proof -
  let ?st2 = "st\<lparr>isProcessing := True, doc := doc st @ E\<rparr>"
  have par': "parentNode (doc st @ E) t = Some p" by (rule parentNode_append[OF par])
  have "spliceBlock t n n after ?st2 =
     Inr (?st2\<lparr>doc := (doc st)[p := Element tag (xs @ n # afterIds after (length (doc st) + length E) @ ys)]
                     @ E @ afterNodes after,
              selection := replaceRanges
                ((doc st)[p := Element tag (xs @ n # afterIds after (length (doc st) + length E) @ ys)]
                     @ E @ afterNodes after) (documentNode ?st2)
                (collapsedAt n (length (childNodes
                   ((doc st)[p := Element tag (xs @ n # afterIds after (length (doc st) + length E) @ ys)]
                     @ E @ afterNodes after) n)))
                (selection ?st2),
              resetTimers := Suc (resetTimers ?st2)\<rparr>)"
    by (rule spliceBlock_parent[OF par' node xs t]) (use n in simp_all)
  moreover have "childNodes ((doc st)[p := Element tag (xs @ n # afterIds after (length (doc st) + length E) @ ys)]
                     @ E @ afterNodes after) n = (if txt = [] then [] else [Suc n])"
    unfolding E by (rule childNodes_elemNodes) (use n in simp)
  ultimately show ?thesis
    unfolding replaceWithHeading_splice n[symmetric] E[symmetric] by (simp add: n)
qed

lemma replaceWithBlockquote_parent:
  assumes par: "parentNode (doc st) t = Some p"
    and node: "nodeAt (doc st) p = Some (Element tag (xs @ t # ys))"
    and xs: "t \<notin> set xs"
    and t: "t < length (doc st)"
    and n: "n = length (doc st)"
    and E: "E = elemNodes ''blockquote'' n txt"
  shows "replaceWithBlockquote t txt after st =
     Inr (st\<lparr>isProcessing := True,
             doc := (doc st)[p := Element tag (xs @ n # afterIds after (n + length E) @ ys)]
                    @ E @ afterNodes after,
             selection := replaceRanges
                ((doc st)[p := Element tag (xs @ n # afterIds after (n + length E) @ ys)]
                    @ E @ afterNodes after) (documentNode st)
                (collapsedAt n (if txt = [] then 0 else 1)) (selection st),
             resetTimers := Suc (resetTimers st)\<rparr>)"
proof -
  let ?st2 = "st\<lparr>isProcessing := True, doc := doc st @ E\<rparr>"
  have par': "parentNode (doc st @ E) t = Some p" by (rule parentNode_append[OF par])
  have "spliceBlock t n n after ?st2 =
     Inr (?st2\<lparr>doc := (doc st)[p := Element tag (xs @ n # afterIds after (length (doc st) + length E) @ ys)]
                     @ E @ afterNodes after,
              selection := replaceRanges
                ((doc st)[p := Element tag (xs @ n # afterIds after (length (doc st) + length E) @ ys)]
                     @ E @ afterNodes after) (documentNode ?st2)
                (collapsedAt n (length (childNodes
                   ((doc st)[p := Element tag (xs @ n # afterIds after (length (doc st) + length E) @ ys)]
                     @ E @ afterNodes after) n)))
                (selection ?st2),
              resetTimers := Suc (resetTimers ?st2)\<rparr>)"
    by (rule spliceBlock_parent[OF par' node xs t]) (use n in simp_all)
  moreover have "childNodes ((doc st)[p := Element tag (xs @ n # afterIds after (length (doc st) + length E) @ ys)]
                     @ E @ afterNodes after) n = (if txt = [] then [] else [Suc n])"
    unfolding E by (rule childNodes_elemNodes) (use n in simp)
  ultimately show ?thesis
    unfolding replaceWithBlockquote_splice n[symmetric] E[symmetric] by (simp add: n)
qed

lemma replaceWithList_parent:
  assumes par: "parentNode (doc st) t = Some p"
    and node: "nodeAt (doc st) p = Some (Element tag (xs @ t # ys))"
    and xs: "t \<notin> set xs"
    and t: "t < length (doc st)"
    and n: "n = length (doc st)"
    and E: "E = elemNodes ''li'' n txt"
    and ul: "ul = n + length E"
  shows "replaceWithList t txt after st =
     Inr (st\<lparr>isProcessing := True,
             doc := (doc st)[p := Element tag (xs @ ul # afterIds after (Suc ul) @ ys)]
                    @ E @ [Element ''ul'' [n]] @ afterNodes after,
             selection := replaceRanges
                ((doc st)[p := Element tag (xs @ ul # afterIds after (Suc ul) @ ys)]
                    @ E @ [Element ''ul'' [n]] @ afterNodes after) (documentNode st)
                (collapsedAt n (if txt = [] then 0 else 1)) (selection st),
             resetTimers := Suc (resetTimers st)\<rparr>)"
proof -
  let ?ms = "E @ [Element ''ul'' [n]]"
  let ?st2 = "st\<lparr>isProcessing := True, doc := doc st @ ?ms\<rparr>"
  have par': "parentNode (doc st @ ?ms) t = Some p" by (rule parentNode_append[OF par])
  have "spliceBlock t ul n after ?st2 =
     Inr (?st2\<lparr>doc := (doc st)[p := Element tag (xs @ ul # afterIds after (length (doc st) + length ?ms) @ ys)]
                     @ ?ms @ afterNodes after,
              selection := replaceRanges
                ((doc st)[p := Element tag (xs @ ul # afterIds after (length (doc st) + length ?ms) @ ys)]
                     @ ?ms @ afterNodes after) (documentNode ?st2)
                (collapsedAt n (length (childNodes
                   ((doc st)[p := Element tag (xs @ ul # afterIds after (length (doc st) + length ?ms) @ ys)]
                     @ ?ms @ afterNodes after) n)))
                (selection ?st2),
              resetTimers := Suc (resetTimers ?st2)\<rparr>)"
    by (rule spliceBlock_parent[OF par' node xs t]) (use n ul in simp_all)
  moreover have "childNodes ((doc st)[p := Element tag (xs @ ul # afterIds after (length (doc st) + length ?ms) @ ys)]
                     @ E @ ([Element ''ul'' [n]] @ afterNodes after)) n = (if txt = [] then [] else [Suc n])"
    unfolding E by (rule childNodes_elemNodes) (use n in simp)
  ultimately show ?thesis
    unfolding replaceWithList_splice n[symmetric] E[symmetric] ul[symmetric]
    by (simp add: n ul)
qed

lemma replaceWithBold_parent:
  assumes par: "parentNode (doc st) t = Some p"
    and node: "nodeAt (doc st) p = Some (Element ptag (xs @ t # ys))"
    and xs: "t \<notin> set xs"
    and tn: "nodeAt (doc st) t = Some (Text tc)"
    and wf: "wellFormed (doc st)"
    and bf: "before = take (m_index m) tc"
    and af: "after = drop (m_index m + length (m_full m)) tc"
    and el: "el = length (doc st) + length (plainNodes before)"
    and E: "E = elemNodes ''strong'' el (matchGroup m 1)"
  shows "replaceWithBold t m st =
     Inr (st\<lparr>isProcessing := True,
             doc := (doc st)[p := Element ptag (xs @ plainIds before (length (doc st)) @ el
                            # plainIds after (el + length E) @ ys)]
                    @ plainNodes before @ E @ plainNodes after,
             selection := replaceRanges
                ((doc st)[p := Element ptag (xs @ plainIds before (length (doc st)) @ el
                            # plainIds after (el + length E) @ ys)]
                    @ plainNodes before @ E @ plainNodes after) (documentNode st)
                (collapsedAt p (Suc (length xs + length (plainNodes before)))) (selection st),
             resetTimers := Suc (resetTimers st)\<rparr>)"
proof -
  from nodeAt_SomeD[OF tn] have t: "t < length (doc st)" by simp
  have tc: "textContent (doc st) t = tc" by (rule textContent_Text[OF tn])
  let ?st1 = "st\<lparr>isProcessing := True\<rparr>"
  have "spliceInline ''strong'' t before (matchGroup m 1) after ?st1 =
     Inr (?st1\<lparr>doc := (doc st)[p := Element ptag (xs @ plainIds before (length (doc st)) @ el
                            # plainIds after (el + length E) @ ys)]
                    @ plainNodes before @ E @ plainNodes after,
             selection := replaceRanges
                ((doc st)[p := Element ptag (xs @ plainIds before (length (doc st)) @ el
                            # plainIds after (el + length E) @ ys)]
                    @ plainNodes before @ E @ plainNodes after) (documentNode ?st1)
                (collapsedAt p (Suc (length xs + length (plainNodes before)))) (selection ?st1),
             resetTimers := Suc (resetTimers ?st1)\<rparr>)"
    by (rule spliceInline_parent[OF par node xs t wf _ el E]) simp
  then show ?thesis
    unfolding replaceWithBold_splice tc bf[symmetric] af[symmetric] by simp
qed

lemma replaceWithItalic_parent:
  assumes par: "parentNode (doc st) t = Some p"
    and node: "nodeAt (doc st) p = Some (Element ptag (xs @ t # ys))"
    and xs: "t \<notin> set xs"
    and tn: "nodeAt (doc st) t = Some (Text tc)"
    and wf: "wellFormed (doc st)"
    and bf: "before = take (m_index m) tc"
    and af: "after = drop (m_index m + length (m_full m)) tc"
    and el: "el = length (doc st) + length (plainNodes before)"
    and E: "E = elemNodes ''em'' el (matchGroup m 1)"
  shows "replaceWithItalic t m st =
     Inr (st\<lparr>isProcessing := True,
             doc := (doc st)[p := Element ptag (xs @ plainIds before (length (doc st)) @ el
                            # plainIds after (el + length E) @ ys)]
                    @ plainNodes before @ E @ plainNodes after,
             selection := replaceRanges
                ((doc st)[p := Element ptag (xs @ plainIds before (length (doc st)) @ el
                            # plainIds after (el + length E) @ ys)]
                    @ plainNodes before @ E @ plainNodes after) (documentNode st)
                (collapsedAt p (Suc (length xs + length (plainNodes before)))) (selection st),
             resetTimers := Suc (resetTimers st)\<rparr>)"
proof -
  from nodeAt_SomeD[OF tn] have t: "t < length (doc st)" by simp
  have tc: "textContent (doc st) t = tc" by (rule textContent_Text[OF tn])
  let ?st1 = "st\<lparr>isProcessing := True\<rparr>"
  have "spliceInline ''em'' t before (matchGroup m 1) after ?st1 =
     Inr (?st1\<lparr>doc := (doc st)[p := Element ptag (xs @ plainIds before (length (doc st)) @ el
                            # plainIds after (el + length E) @ ys)]
                    @ plainNodes before @ E @ plainNodes after,
             selection := replaceRanges
                ((doc st)[p := Element ptag (xs @ plainIds before (length (doc st)) @ el
                            # plainIds after (el + length E) @ ys)]
                    @ plainNodes before @ E @ plainNodes after) (documentNode ?st1)
                (collapsedAt p (Suc (length xs + length (plainNodes before)))) (selection ?st1),
             resetTimers := Suc (resetTimers ?st1)\<rparr>)"
    by (rule spliceInline_parent[OF par node xs t wf _ el E]) simp
  then show ?thesis
    unfolding replaceWithItalic_splice tc bf[symmetric] af[symmetric] by simp
qed

lemma replaceWithCode_parent:
  assumes par: "parentNode (doc st) t = Some p"
    and node: "nodeAt (doc st) p = Some (Element ptag (xs @ t # ys))"
    and xs: "t \<notin> set xs"
    and tn: "nodeAt (doc st) t = Some (Text tc)"
    and wf: "wellFormed (doc st)"
    and bf: "before = take (m_index m) tc"
    and af: "after = drop (m_index m + length (m_full m)) tc"
    and el: "el = length (doc st) + length (plainNodes before)"
    and E: "E = elemNodes ''code'' el (matchGroup m 1)"
  shows "replaceWithCode t m st =
     Inr (st\<lparr>isProcessing := True,
             doc := (doc st)[p := Element ptag (xs @ plainIds before (length (doc st)) @ el
                            # plainIds after (el + length E) @ ys)]
                    @ plainNodes before @ E @ plainNodes after,
             selection := replaceRanges
                ((doc st)[p := Element ptag (xs @ plainIds before (length (doc st)) @ el
                            # plainIds after (el + length E) @ ys)]
                    @ plainNodes before @ E @ plainNodes after) (documentNode st)
                (collapsedAt p (Suc (length xs + length (plainNodes before)))) (selection st),
             resetTimers := Suc (resetTimers st)\<rparr>)"
proof -
  from nodeAt_SomeD[OF tn] have t: "t < length (doc st)" by simp
  have tc: "textContent (doc st) t = tc" by (rule textContent_Text[OF tn])
  let ?st1 = "st\<lparr>isProcessing := True\<rparr>"
  have "spliceInline ''code'' t before (matchGroup m 1) after ?st1 =
     Inr (?st1\<lparr>doc := (doc st)[p := Element ptag (xs @ plainIds before (length (doc st)) @ el
                            # plainIds after (el + length E) @ ys)]
                    @ plainNodes before @ E @ plainNodes after,
             selection := replaceRanges
                ((doc st)[p := Element ptag (xs @ plainIds before (length (doc st)) @ el
                            # plainIds after (el + length E) @ ys)]
                    @ plainNodes before @ E @ plainNodes after) (documentNode ?st1)
                (collapsedAt p (Suc (length xs + length (plainNodes before)))) (selection ?st1),
             resetTimers := Suc (resetTimers ?st1)\<rparr>)"
    by (rule spliceInline_parent[OF par node xs t wf _ el E]) simp
  then show ?thesis
    unfolding replaceWithCode_splice tc bf[symmetric] af[symmetric] by simp
qed

section \<open>The transforms when the text node is detached\<close>

lemma bindE_Inr: "bindE (Inr x) f = f x"
  by (simp add: bindE_def)

lemma spliceBlock_detached:
  "parentNode (doc st2) t = None \<Longrightarrow>
   spliceBlock t el host after st2 = Inr (st2\<lparr>resetTimers := Suc (resetTimers st2)\<rparr>)"
  by (simp add: spliceBlock_def bindE_def)

lemma spliceInline_detached:
  "parentNode (doc st1) t = None \<Longrightarrow>
   spliceInline tag t before inner after st1 = Inr (st1\<lparr>resetTimers := Suc (resetTimers st1)\<rparr>)"
  by (simp add: spliceInline_def bindE_def)

lemma parentNode_append_None:
  assumes "parentNode ns t = None" "t < length ns"
    and "\<And>q c. length ns \<le> q \<Longrightarrow> c \<in> set (childNodes (ns @ ms) q) \<Longrightarrow> length ns \<le> c"
  shows "parentNode (ns @ ms) t = None"
  unfolding parentNode_None_iff
proof (intro allI impI)
  fix q assume "q < length (ns @ ms)"
  show "t \<notin> set (childNodes (ns @ ms) q)"
  proof (cases "q < length ns")
    case True
    then show ?thesis
      using assms(1) by (simp add: childNodes_append parentNode_None_iff)
  next
    case False
    then show ?thesis using assms(3)[of q t] assms(2) by auto
  qed
qed

lemma childNodes_new_elemNodes:
  assumes "length ns \<le> q" "c \<in> set (childNodes (ns @ elemNodes tag (length ns) txt @ ms) q)"
    and "\<And>q c. c \<in> set (childNodes ms q) \<Longrightarrow> length ns \<le> c"
  shows "length ns \<le> c"
proof -
  let ?E = "elemNodes tag (length ns) txt"
  have "q = length ns \<or> (txt \<noteq> [] \<and> q = Suc (length ns)) \<or> length ns + length ?E \<le> q"
    using assms(1) by (cases "txt = []") (auto simp: length_elemNodes)
  then consider "q = length ns" | "txt \<noteq> []" "q = Suc (length ns)" | "length ns + length ?E \<le> q"
    by blast
  then show ?thesis
  proof cases
    case 1
    then show ?thesis
      using assms(2) childNodes_elemNodes[of ns "length ns" tag "txt" ms] by (auto split: if_splits)
  next
    case 2
    then show ?thesis
      using assms(2) by (auto simp: childNodes_def nodeAt_def elemNodes_def nth_append)
  next
    case 3
    then have "childNodes (ns @ ?E @ ms) q = childNodes ms (q - length ns - length ?E)"
      by (auto simp: childNodes_def nodeAt_def nth_append split: option.splits)
    then show ?thesis using assms(2,3) by auto
  qed
qed

lemma replaceWithHeading_detached:
  assumes "parentNode (doc st) t = None" "t < length (doc st)"
  shows "replaceWithHeading t level txt after st =
     Inr (st\<lparr>isProcessing := True,
             doc := doc st @ elemNodes (''h'' @ numberToString level) (length (doc st)) txt,
             resetTimers := Suc (resetTimers st)\<rparr>)"
proof -
  let ?E = "elemNodes (''h'' @ numberToString level) (length (doc st)) txt"
  have "parentNode (doc st @ ?E @ []) t = None"
    by (rule parentNode_append_None[OF assms])
       (rule childNodes_new_elemNodes, assumption, assumption, simp add: childNodes_def nodeAt_def)
  then show ?thesis
    unfolding replaceWithHeading_splice by (simp add: spliceBlock_detached)
qed

lemma replaceWithBlockquote_detached:
  assumes "parentNode (doc st) t = None" "t < length (doc st)"
  shows "replaceWithBlockquote t txt after st =
     Inr (st\<lparr>isProcessing := True,
             doc := doc st @ elemNodes ''blockquote'' (length (doc st)) txt,
             resetTimers := Suc (resetTimers st)\<rparr>)"
proof -
  let ?E = "elemNodes ''blockquote'' (length (doc st)) txt"
  have "parentNode (doc st @ ?E @ []) t = None"
    by (rule parentNode_append_None[OF assms])
       (rule childNodes_new_elemNodes, assumption, assumption, simp add: childNodes_def nodeAt_def)
  then show ?thesis
    unfolding replaceWithBlockquote_splice by (simp add: spliceBlock_detached)
qed

lemma replaceWithList_detached:
  assumes "parentNode (doc st) t = None" "t < length (doc st)"
  shows "replaceWithList t txt after st =
     Inr (st\<lparr>isProcessing := True,
             doc := doc st @ elemNodes ''li'' (length (doc st)) txt @ [Element ''ul'' [length (doc st)]],
             resetTimers := Suc (resetTimers st)\<rparr>)"
proof -
  let ?E = "elemNodes ''li'' (length (doc st)) txt"
  have "parentNode (doc st @ ?E @ [Element ''ul'' [length (doc st)]]) t = None"
    by (rule parentNode_append_None[OF assms])
       (rule childNodes_new_elemNodes, assumption, assumption,
        auto simp: childNodes_def nodeAt_def split: if_splits)
  then show ?thesis
    unfolding replaceWithList_splice by (simp add: spliceBlock_detached)
qed

lemma replaceWithBold_detached:
  "parentNode (doc st) t = None \<Longrightarrow>
   replaceWithBold t m st = Inr (st\<lparr>isProcessing := True, resetTimers := Suc (resetTimers st)\<rparr>)"
  unfolding replaceWithBold_splice by (simp add: spliceInline_detached)

lemma replaceWithItalic_detached:
  "parentNode (doc st) t = None \<Longrightarrow>
   replaceWithItalic t m st = Inr (st\<lparr>isProcessing := True, resetTimers := Suc (resetTimers st)\<rparr>)"
  unfolding replaceWithItalic_splice by (simp add: spliceInline_detached)

lemma replaceWithCode_detached:
  "parentNode (doc st) t = None \<Longrightarrow>
   replaceWithCode t m st = Inr (st\<lparr>isProcessing := True, resetTimers := Suc (resetTimers st)\<rparr>)"
  unfolding replaceWithCode_splice by (simp add: spliceInline_detached)

lemma parentNode_append_old:
  assumes "n < length ns"
    and "\<And>q c. length ns \<le> q \<Longrightarrow> c \<in> set (childNodes (ns @ ms) q) \<Longrightarrow> length ns \<le> c"
  shows "parentNode (ns @ ms) n = parentNode ns n"
proof (cases "parentNode ns n")
  case None
  then show ?thesis using parentNode_append_None[OF None assms] by simp
next
  case (Some p)
  then show ?thesis using parentNode_append[OF Some] by simp
qed

lemma unchangedTree_refl: "unchangedTree ns ns"
  by (simp add: unchangedTree_def list_all_iff)

lemma unchangedTree_elemNodes:
  assumes "\<And>q c. c \<in> set (childNodes ms q) \<Longrightarrow> length ns \<le> c"
  shows "unchangedTree ns (ns @ elemNodes tag (length ns) txt @ ms)"
proof -
  have "parentNode (ns @ elemNodes tag (length ns) txt @ ms) n = parentNode ns n"
    if "n < length ns" for n
    by (rule parentNode_append_old[OF that]) (rule childNodes_new_elemNodes, assumption, assumption, rule assms)
  then show ?thesis by (simp add: unchangedTree_def list_all_iff)
qed

section \<open>The root of the new nodes\<close>

lemma newChildrenOnly_append:
  "newChildrenOnly n (ms @ ms') \<longleftrightarrow> newChildrenOnly n ms \<and> newChildrenOnly n ms'"
  "newChildrenOnly n (Element tag cs # ms') \<longleftrightarrow> list_all (\<lambda>c. n \<le> c) cs \<and> newChildrenOnly n ms'"
  by (simp_all add: newChildrenOnly_def)

lemma newChildrenOnly_nodes:
  "k \<le> n \<Longrightarrow> newChildrenOnly k (elemNodes tag n txt)"
  "newChildrenOnly k (afterNodes after)"
  "newChildrenOnly k (plainNodes before)"
  "k \<le> n \<Longrightarrow> newChildrenOnly k [Element tag [n]]"
  by (simp_all add: newChildrenOnly_def elemNodes_def afterNodes_def plainNodes_def)

lemma rootF_mono: "rootF k ns x = Some r \<Longrightarrow> k \<le> k' \<Longrightarrow> rootF k' ns x = Some r"
proof (induction k arbitrary: k' x)
  case 0
  then show ?case by simp
next
  case (Suc k)
  then obtain j where j: "k' = Suc j" "k \<le> j" by (cases k') auto
  show ?case
  proof (cases "parentNode ns x")
    case None
    with Suc.prems show ?thesis by (simp add: j)
  next
    case (Some q)
    with Suc.prems have "rootF k ns q = Some r" by simp
    from Suc.IH[OF this j(2)] show ?thesis by (simp add: j Some)
  qed
qed

lemma rootF_transfer:
  assumes same: "\<And>x. x < length ns \<Longrightarrow> x \<noteq> t \<Longrightarrow> parentNode D x = parentNode ns x"
    and leaf: "\<And>x. parentNode ns x \<noteq> Some t"
  shows "rootF k ns x = Some r \<Longrightarrow> x < length ns \<Longrightarrow> x \<noteq> t \<Longrightarrow> rootF k D x = Some r"
proof (induction k arbitrary: x)
  case 0
  then show ?case by simp
next
  case (Suc k)
  show ?case
  proof (cases "parentNode ns x")
    case None
    with Suc.prems same[OF Suc.prems(2,3)] show ?thesis by simp
  next
    case (Some q)
    from parentNode_SomeD[OF Some] have q: "q < length ns" by simp
    have qt: "q \<noteq> t" using leaf[of x] Some by auto
    from Suc.prems Some have "rootF k ns q = Some r" by simp
    from Suc.IH[OF this q qt] show ?thesis
      using same[OF Suc.prems(2,3)] Some by simp
  qed
qed

lemma childNodes_Text: "nodeAt ns t = Some (Text tc) \<Longrightarrow> childNodes ns t = []"
  by (simp add: childNodes_def)

lemma parentNode_not_Text:
  "nodeAt ns t = Some (Text tc) \<Longrightarrow> parentNode ns x \<noteq> Some t"
  using parentNode_SomeD[of ns x t] by (auto simp: childNodes_Text)

lemma childNodes_appended:
  assumes "newChildrenOnly n ms"
    and "length ns' = n" "n \<le> q"
  shows "\<forall>c\<in>set (childNodes (ns' @ ms) q). n \<le> c"
proof (cases "q < length (ns' @ ms)")
  case True
  then have "ms ! (q - n) \<in> set ms" using assms(2,3) by simp
  with assms(1) have "case ms ! (q - n) of Element tg cs \<Rightarrow> list_all (\<lambda>c. n \<le> c) cs | Text s \<Rightarrow> True"
    unfolding newChildrenOnly_def list_all_iff by blast
  then show ?thesis
    using True assms(2,3)
    by (auto simp: childNodes_def nodeAt_def nth_append list_all_iff split: node.splits)
next
  case False
  then show ?thesis by (simp add: childNodes_def nodeAt_def)
qed

lemma parentNode_spliced:
  assumes node: "nodeAt ns p = Some (Element tag (xs @ t # ys))"
    and mid: "\<forall>c\<in>set mid. length ns \<le> c"
    and ms: "newChildrenOnly (length ns) ms"
    and x: "x < length ns" "x \<noteq> t"
  shows "parentNode (ns[p := Element tag (xs @ mid @ ys)] @ ms) x = parentNode ns x"
proof -
  let ?D = "ns[p := Element tag (xs @ mid @ ys)] @ ms"
  from nodeAt_SomeD[OF node] have p: "p < length ns" by simp
  have kids: "childNodes ns p = xs @ t # ys" by (rule childNodes_Element[OF node])
  have old: "x \<in> set (childNodes ?D q) \<longleftrightarrow> x \<in> set (childNodes ns q)" if "q < length ns" for q
  proof (cases "q = p")
    case True
    then show ?thesis using p x mid kids by (auto simp: childNodes_update_same)
  next
    case False
    then show ?thesis using that by (simp add: childNodes_update_other)
  qed
  have new: "x \<notin> set (childNodes ?D q)" if "length ns \<le> q" for q
    using childNodes_appended[OF ms _ that, of "ns[p := Element tag (xs @ mid @ ys)]"] x by auto
  show ?thesis
  proof (cases "parentNode ns x")
    case None
    then have "\<forall>q<length ns. x \<notin> set (childNodes ns q)" by (simp add: parentNode_None_iff)
    then have "\<forall>q<length ?D. x \<notin> set (childNodes ?D q)"
      using old new by (metis not_le)
    then have "parentNode ?D x = None" unfolding parentNode_None_iff .
    then show ?thesis using None by simp
  next
    case (Some q)
    from parentNode_SomeD[OF Some] have q: "q < length ns" "x \<in> set (childNodes ns q)"
      "\<forall>q'<q. x \<notin> set (childNodes ns q')" by auto
    have "parentNode ?D x = Some q"
    proof (rule parentNode_SomeI)
      show "q < length ?D" using q by simp
      show "x \<in> set (childNodes ?D q)" using old[OF q(1)] q(2) by simp
      show "\<forall>q'<q. x \<notin> set (childNodes ?D q')"
        using old q by (metis less_trans)
    qed
    then show ?thesis using Some by simp
  qed
qed

lemma rootF_spliced:
  assumes par: "parentNode ns t = Some p"
    and tn: "nodeAt ns t = Some (Text tc)"
    and node: "nodeAt ns p = Some (Element tag (xs @ t # ys))"
    and mid: "\<forall>c\<in>set mid. length ns \<le> c"
    and ms: "newChildrenOnly (length ns) ms"
    and root: "rootNode ns t = Some r"
    and k: "length ns \<le> Suc k"
  shows "rootF k (ns[p := Element tag (xs @ mid @ ys)] @ ms) p = Some r"
proof -
  let ?D = "ns[p := Element tag (xs @ mid @ ys)] @ ms"
  from nodeAt_SomeD[OF tn] have t: "t < length ns" by simp
  from nodeAt_SomeD[OF node] have p: "p < length ns" by simp
  have pt: "p \<noteq> t" using tn node by auto
  from t obtain j where j: "length ns = Suc j" by (cases "length ns") auto
  from root have "rootF j ns p = Some r" by (simp add: rootNode_def j par)
  then have "rootF j ?D p = Some r"
    by (rule rootF_transfer[rotated 2, OF _ p pt])
       (simp_all add: parentNode_spliced[OF node mid ms] parentNode_not_Text[OF tn])
  then show ?thesis by (rule rootF_mono) (use k j in simp)
qed

lemma parentNode_new_child:
  assumes wf: "wellFormed ns" and p: "p < length ns" and el: "length ns \<le> el"
    and cs: "el \<in> set cs"
  shows "parentNode (ns[p := Element tag cs] @ ms) el = Some p"
proof (rule parentNode_SomeI)
  let ?D = "ns[p := Element tag cs] @ ms"
  show "p < length ?D" using p by simp
  show "el \<in> set (childNodes ?D p)" using p cs by (simp add: childNodes_update_same)
  show "\<forall>q<p. el \<notin> set (childNodes ?D q)"
  proof (intro allI impI)
    fix q assume q: "q < p"
    then have "childNodes ?D q = childNodes ns q"
      using p by (simp add: childNodes_update_other)
    moreover have "q < length ns" using q p by simp
    then have "\<forall>c\<in>set (childNodes ns q). c < length ns"
      using wellFormedD[OF wf] by blast
    ultimately show "el \<notin> set (childNodes ?D q)" using el by auto
  qed
qed


lemma rootNode_block_host:
  assumes par: "parentNode ns t = Some p"
    and node: "nodeAt ns p = Some (Element tag (xs @ t # ys))"
    and tn: "nodeAt ns t = Some (Text tc)"
    and wf: "wellFormed ns"
    and root: "rootNode ns t = Some r"
    and n: "n = length ns"
    and E: "E = elemNodes etag n inner"
  shows "rootNode (ns[p := Element tag (xs @ n # afterIds after (n + length E) @ ys)]
                    @ E @ afterNodes after) n = Some r"
proof -
  let ?mid = "n # afterIds after (n + length E)"
  let ?ms = "E @ afterNodes after"
  let ?D = "ns[p := Element tag (xs @ ?mid @ ys)] @ ?ms"
  from nodeAt_SomeD[OF node] have p: "p < length ns" by simp
  have mid: "\<forall>c\<in>set ?mid. length ns \<le> c" using n by (auto simp: afterIds_def)
  have ms: "newChildrenOnly (length ns) ?ms"
    unfolding E using n by (simp add: newChildrenOnly_append newChildrenOnly_nodes)
  define k where "k = length ns + (length E - 1) + length (afterNodes after)"
  have k: "length ?D = Suc k" "length ns \<le> Suc k"
    by (simp_all add: k_def E length_elemNodes)
  have "parentNode ?D n = Some p"
    by (rule parentNode_new_child[OF wf p]) (use n in simp_all)
  moreover have "rootF k ?D p = Some r"
    by (rule rootF_spliced[OF par tn node mid ms root k(2)])
  ultimately have "rootNode ?D n = Some r"
    unfolding rootNode_def k(1) by simp
  then show ?thesis by simp
qed

lemma rootNode_list_host:
  assumes par: "parentNode ns t = Some p"
    and node: "nodeAt ns p = Some (Element tag (xs @ t # ys))"
    and tn: "nodeAt ns t = Some (Text tc)"
    and wf: "wellFormed ns"
    and root: "rootNode ns t = Some r"
    and n: "n = length ns"
    and E: "E = elemNodes ''li'' n inner"
    and ul: "ul = n + length E"
  shows "rootNode (ns[p := Element tag (xs @ ul # afterIds after (Suc ul) @ ys)]
                    @ E @ [Element ''ul'' [n]] @ afterNodes after) n = Some r"
proof -
  let ?mid = "ul # afterIds after (Suc ul)"
  let ?ms = "E @ [Element ''ul'' [n]] @ afterNodes after"
  let ?D = "ns[p := Element tag (xs @ ?mid @ ys)] @ ?ms"
  from nodeAt_SomeD[OF node] have p: "p < length ns" by simp
  have kids: "childNodes ns p = xs @ t # ys" by (rule childNodes_Element[OF node])
  have mid: "\<forall>c\<in>set ?mid. length ns \<le> c" using n ul by (auto simp: afterIds_def)
  have ms: "newChildrenOnly (length ns) ?ms"
    unfolding E using n by (simp add: newChildrenOnly_append newChildrenOnly_nodes)
  define k where "k = length ns + (length E - 1) + length (afterNodes after)"
  have len: "length ?D = Suc (Suc k)"
    using n ul by (simp add: k_def E length_elemNodes)
  have pul: "parentNode ?D ul = Some p"
    by (rule parentNode_new_child[OF wf p]) (use n ul in simp_all)
  have pn: "parentNode ?D n = Some ul"
  proof (rule parentNode_SomeI)
    show "ul < length ?D" using n ul by simp
    show "n \<in> set (childNodes ?D ul)"
      using n ul by (simp add: childNodes_def nodeAt_def nth_append)
    show "\<forall>q<ul. n \<notin> set (childNodes ?D q)"
    proof (intro allI impI)
      fix q assume q: "q < ul"
      show "n \<notin> set (childNodes ?D q)"
      proof (cases "q < length ns")
        case True
        have old: "\<forall>c\<in>set (childNodes ns q'). c < length ns" if "q' < length ns" for q'
          using wellFormedD[OF wf that] by blast
        show ?thesis
        proof (cases "q = p")
          case True
          then show ?thesis
            using p old[OF p] kids n ul
            by (auto simp: childNodes_update_same afterIds_def E length_elemNodes split: if_splits)
        next
          case False
          then show ?thesis using True old[OF True] n by (auto simp: childNodes_update_other)
        qed
      next
        case False
        then show ?thesis
          using q n ul
          by (auto simp: childNodes_def nodeAt_def nth_append E elemNodes_def nth_Cons
              split: if_splits nat.splits)
      qed
    qed
  qed
  have "rootF k ?D p = Some r"
    by (rule rootF_spliced[OF par tn node mid ms root]) (simp add: k_def)
  then have "rootNode ?D n = Some r"
    unfolding rootNode_def len using pn pul by simp
  then show ?thesis by simp
qed

lemma rootNode_inline_host:
  assumes par: "parentNode ns t = Some p"
    and node: "nodeAt ns p = Some (Element ptag (xs @ t # ys))"
    and tn: "nodeAt ns t = Some (Text tc)"
    and root: "rootNode ns t = Some r"
    and el: "el = length ns + length (plainNodes before)"
    and E: "E = elemNodes tag el inner"
  shows "rootNode (ns[p := Element ptag (xs @ plainIds before (length ns) @ el
                            # plainIds after (el + length E) @ ys)]
                    @ plainNodes before @ E @ plainNodes after) p = Some r"
proof -
  let ?mid = "plainIds before (length ns) @ el # plainIds after (el + length E)"
  let ?ms = "plainNodes before @ E @ plainNodes after"
  let ?D = "ns[p := Element ptag (xs @ ?mid @ ys)] @ ?ms"
  have mid: "\<forall>c\<in>set ?mid. length ns \<le> c" using el by (auto simp: plainIds_def)
  have ms: "newChildrenOnly (length ns) ?ms"
    unfolding E using el by (simp add: newChildrenOnly_append newChildrenOnly_nodes)
  have "rootF (length ?D) ?D p = Some r"
    by (rule rootF_spliced[OF par tn node mid ms root]) simp
  then show ?thesis by (simp add: rootNode_def)
qed

section \<open>The detectors\<close>

lemma processSpace_on_run:
  assumes "selection st = Some (r # rs)" "nodeAt (doc st) (startContainer r) = Some (Text tc)"
  shows "processSpaceTriggeredFormatting st =
     (case regexMatch headingRegex (take (startOffset r) tc) of
        Some hm \<Rightarrow> replaceWithHeading (startContainer r) (length (matchGroup hm 1))
                     (matchGroup hm 2) (drop (startOffset r) tc) st
      | None \<Rightarrow>
         (case regexMatch listRegex (take (startOffset r) tc) of
            Some lm \<Rightarrow> replaceWithList (startContainer r) (matchGroup lm 1)
                         (drop (startOffset r) tc) st
          | None \<Rightarrow>
             (case regexMatch blockquoteRegex (take (startOffset r) tc) of
                Some bm \<Rightarrow> replaceWithBlockquote (startContainer r) (matchGroup bm 1)
                             (drop (startOffset r) tc) st
              | None \<Rightarrow> Inr st)))"
  using assms by (simp add: processSpaceTriggeredFormatting_def Let_def)

lemma processInline_on_run:
  assumes "selection st = Some (r # rs)" "nodeAt (doc st) (startContainer r) = Some (Text tc)"
  shows "processInlineFormatting st =
     (case regexMatch boldStarRegex tc of
        Some m \<Rightarrow> replaceWithBold (startContainer r) m st
      | None \<Rightarrow>
         (case regexMatch boldUnderscoreRegex tc of
            Some m \<Rightarrow> replaceWithBold (startContainer r) m st
          | None \<Rightarrow>
             (case regexMatch italicStarRegex tc of
                Some m \<Rightarrow> replaceWithItalic (startContainer r) m st
              | None \<Rightarrow>
                 (case regexMatch italicUnderscoreRegex tc of
                    Some m \<Rightarrow> replaceWithItalic (startContainer r) m st
                  | None \<Rightarrow>
                     (case regexMatch codeRegex tc of
                        Some m \<Rightarrow> replaceWithCode (startContainer r) m st
                      | None \<Rightarrow> Inr st)))))"
  using assms by (simp add: processInlineFormatting_def Let_def split: option.splits)

lemma trim_Nil: "trim [] = []"
  by (simp add: trim_def)

lemma afterNodes_Nil: "afterNodes [] = []" "afterIds [] k = []"
  by (simp_all add: afterNodes_def afterIds_def trim_def)

lemma numberToString_digit: "k < 10 \<Longrightarrow> numberToString k = [digitChar k]"
  by (simp add: numberToString.simps)

lemma leading_hashes:
  assumes "ws \<noteq> []" "\<forall>c\<in>set ws. isWhiteSpace c"
  shows "length (takeWhile (\<lambda>c. c = CHR ''#'') (replicate k (CHR ''#'') @ ws @ rest)) = k"
proof -
  obtain w ws' where ws: "ws = w # ws'" using assms(1) by (cases ws) auto
  with assms(2) have "isWhiteSpace w" by simp
  then have "w \<noteq> CHR ''#''" by (auto simp: isWhiteSpace_def)
  then show ?thesis by (induction k) (auto simp: ws)
qed

lemma caretRun_SomeD:
  "caretRun st = Some (t, tc, off) \<Longrightarrow>
   \<exists>r rs. selection st = Some (r # rs) \<and> startContainer r = t \<and> startOffset r = off
          \<and> nodeAt (doc st) t = Some (Text tc)"
  by (auto simp: caretRun_def split: option.splits list.splits node.splits)

lemma processLive_no_run: "caretRun st = None \<Longrightarrow> processLiveFormatting e st = Inr st"
  by (auto simp: caretRun_def processLiveFormatting_def processSpaceTriggeredFormatting_def
      processInlineFormatting_def Let_def split: option.splits list.splits node.splits)

lemma first_char_of_Rep:
  assumes "matchAtoms (Bol # Rep cap cls 1 hi # as) s 0 [] = Some r"
  shows "s \<noteq> [] \<and> inClass cls (hd s)"
proof -
  from assms have "matchAtoms (Rep cap cls 1 hi # as) s 0 [] = Some r" by simp
  from matchAtoms_Rep_SomeD[OF this] obtain n where n: "1 \<le> n" "n \<le> repMost cls hi s 0"
    by blast
  from n repMost_le[of cls hi s 0] have "s \<noteq> []" by auto
  moreover from repMost_all[OF n(2)] n(1) \<open>s \<noteq> []\<close> have "inClass cls (hd s)"
    by (cases s; cases n) auto
  ultimately show ?thesis by simp
qed

lemma listMatch_first:
  assumes "regexMatch listRegex s = Some m"
  shows "s \<noteq> [] \<and> hd s \<in> {CHR ''-'', CHR ''*'', CHR ''+''}"
proof -
  from assms have "matchFrom listRegex s 0 = Some m"
    unfolding listRegex_def regexMatch_Bol .
  from matchFrom_SomeD[OF this] obtain r where "matchAtoms listRegex s 0 [] = Some r" by auto
  from first_char_of_Rep[OF this[unfolded listRegex_def]] show ?thesis by simp
qed

lemma blockquoteMatch_first:
  assumes "regexMatch blockquoteRegex s = Some m"
  shows "s \<noteq> [] \<and> hd s = CHR ''>''"
proof -
  from assms have "matchFrom blockquoteRegex s 0 = Some m"
    unfolding blockquoteRegex_def regexMatch_Bol .
  from matchFrom_SomeD[OF this] obtain r where "matchAtoms blockquoteRegex s 0 [] = Some r" by auto
  from first_char_of_Rep[OF this[unfolded blockquoteRegex_def lit_def]] show ?thesis by simp
qed

lemma headingMatch_first:
  assumes "regexMatch headingRegex s = Some m"
  shows "s \<noteq> [] \<and> hd s = CHR ''#''"
proof -
  from headingMatch_SomeD[OF assms] obtain k ws rest where
    "s = replicate k (CHR ''#'') @ ws @ rest" "1 \<le> k" by blast
  then show ?thesis by (cases k) auto
qed

lemma spliceBlock_flag:
  "spliceBlock t el host after st2 = Inr st' \<Longrightarrow> isProcessing st' = isProcessing st2"
  by (auto simp: spliceBlock_def bindE_def Let_def createTextNode_def
      split: option.splits sum.splits if_splits)

lemma spliceInline_flag:
  "spliceInline tag t before inner after st1 = Inr st' \<Longrightarrow> isProcessing st' = isProcessing st1"
  by (auto simp: spliceInline_def bindE_def Let_def createTextNode_def createElement_def
      split: option.splits sum.splits if_splits)

lemma replaceWith_flag:
  "replaceWithHeading t level txt after st = Inr st' \<Longrightarrow> isProcessing st'"
  "replaceWithBlockquote t txt after st = Inr st' \<Longrightarrow> isProcessing st'"
  "replaceWithList t txt after st = Inr st' \<Longrightarrow> isProcessing st'"
  "replaceWithBold t m st = Inr st' \<Longrightarrow> isProcessing st'"
  "replaceWithItalic t m st = Inr st' \<Longrightarrow> isProcessing st'"
  "replaceWithCode t m st = Inr st' \<Longrightarrow> isProcessing st'"
  unfolding replaceWithHeading_splice replaceWithBlockquote_splice replaceWithList_splice
    replaceWithBold_splice replaceWithItalic_splice replaceWithCode_splice
  by (auto dest: spliceBlock_flag spliceInline_flag)

lemma processSpace_changed:
  "processSpaceTriggeredFormatting st = Inr st' \<Longrightarrow> st' \<noteq> st \<Longrightarrow> isProcessing st'"
  by (auto simp: processSpaceTriggeredFormatting_def Let_def dest: replaceWith_flag
      split: option.splits list.splits node.splits)

lemma processInline_changed:
  "processInlineFormatting st = Inr st' \<Longrightarrow> st' \<noteq> st \<Longrightarrow> isProcessing st'"
  by (auto simp: processInlineFormatting_def Let_def dest: replaceWith_flag
      split: option.splits list.splits node.splits)


lemma startContainer_collapsedAt: "startContainer (collapsedAt c k) = c"
  by (simp add: collapsedAt_def)





lemma tagsOf_append: "tagsOf (ms @ ms') = tagsOf ms @ tagsOf ms'"
  by (induction ms rule: tagsOf.induct) simp_all

lemma tagsOf_nodes:
  "tagsOf (elemNodes tag n inner) = [tag]"
  "tagsOf (afterNodes after) = []"
  "tagsOf (plainNodes before) = []"
  by (simp_all add: elemNodes_def afterNodes_def plainNodes_def)

lemma createdTags_same: "createdTags st st = []"
  by (simp add: createdTags_def)

lemma heading_tag: "1 \<le> k \<Longrightarrow> k \<le> 6 \<Longrightarrow>
  ''h'' @ [digitChar k] \<in> set [''h1'', ''h2'', ''h3'', ''h4'', ''h5'', ''h6'']"
proof -
  assume "1 \<le> k" "k \<le> 6"
  then have "k = 1 \<or> k = 2 \<or> k = 3 \<or> k = 4 \<or> k = 5 \<or> k = 6" by arith
  then show ?thesis by (auto simp: digitChar_def)
qed

section \<open>The inline patterns\<close>

lemma lit_step:
  assumes "matchAtoms (lit c # as) s pos caps = Some r"
  shows "pos < length s \<and> s ! pos = c \<and> matchAtoms as s (Suc pos) caps = Some r"
proof -
  from Rep_nocap_SomeD[OF assms[unfolded lit_def]] obtain n where
    n: "1 \<le> n" "n \<le> repMost (Lit c) (Some 1) s pos" "matchAtoms as s (pos + n) caps = Some r"
    by blast
  from repMost_hi[OF n(2)] n(1) have n1: "n = 1" by simp
  from n(2) repMost_le[of "Lit c" "Some 1" s pos] n1 have p: "pos < length s" by simp
  then have "take 1 (drop pos s) = [s ! pos]"
    by (simp add: take_Suc_conv_app_nth hd_drop_conv_nth take_Suc)
  with repMost_all[OF n(2)] n1 have "s ! pos = c" by simp
  with p n(3) n1 show ?thesis by simp
qed

lemma notlit_step:
  assumes "matchAtoms (Rep True (NotLit d) 1 None # as) s pos caps = Some r"
  shows "\<exists>n. 1 \<le> n \<and> pos + n \<le> length s \<and> d \<notin> set (take n (drop pos s))
           \<and> matchAtoms as s (pos + n) (caps @ [take n (drop pos s)]) = Some r"
proof -
  from Rep_cap_SomeD[OF assms] obtain n where
    n: "1 \<le> n" "n \<le> repMost (NotLit d) None s pos"
    "matchAtoms as s (pos + n) (caps @ [take n (drop pos s)]) = Some r"
    by blast
  from repMost_all[OF n(2)] have "d \<notin> set (take n (drop pos s))" by auto
  moreover from n(1,2) repMost_le[of "NotLit d" None s pos] have "pos + n \<le> length s" by simp
  ultimately show ?thesis using n by blast
qed

lemma drop_nth_Cons: "i < length s \<Longrightarrow> drop i s = s ! i # drop (Suc i) s"
  by (simp add: Cons_nth_drop_Suc)

lemma regexMatch_found:
  assumes "regexMatch as s = Some m"
  shows "\<exists>e caps. matchAtoms as s (m_index m) [] = Some (e, caps) \<and> m_index m \<le> e
           \<and> e \<le> length s \<and> m_full m = take (e - m_index m) (drop (m_index m) s)
           \<and> m_groups m = caps"
proof -
  from assms have "\<exists>i\<in>set [0..<Suc (length s)]. matchFrom as s i = Some m"
    unfolding regexMatch_def by (rule firstSome_SomeD)
  then obtain i where "i \<in> set [0..<Suc (length s)]" and i2: "matchFrom as s i = Some m"
    by blast
  then have i1: "i \<le> length s" by (simp del: upt_Suc)
  from matchFrom_SomeD[OF i2] obtain e caps where e: "matchAtoms as s i [] = Some (e, caps)"
    and m: "m = \<lparr>m_index = i, m_full = take (e - i) (drop i s), m_groups = caps\<rparr>"
    by blast
  from matchAtoms_bounds[OF e i1] e m show ?thesis by simp
qed

lemma delimited_split:
  assumes "regexMatch as s = Some m"
  shows "s = take (m_index m) s @ m_full m @ drop (m_index m + length (m_full m)) s"
proof -
  from regexMatch_SomeD[OF assms] have "m_full m = take (length (m_full m)) (drop (m_index m) s)"
    by simp
  then have "take (m_index m) s @ m_full m @ drop (m_index m + length (m_full m)) s
        = take (m_index m) s @ take (length (m_full m)) (drop (m_index m) s)
          @ drop (length (m_full m)) (drop (m_index m) s)"
    by (simp add: add.commute)
  also have "\<dots> = s" by (simp only: append_take_drop_id)
  finally show ?thesis by simp
qed

lemma one_delimiter_shape:
  assumes i: "i < length s" "s ! i = d"
    and n: "1 \<le> n" "d \<notin> set (take n (drop (Suc i) s))"
    and j: "Suc i + n < length s" "s ! (Suc i + n) = d"
  shows "take (Suc (Suc n)) (drop i s) = [d] @ take n (drop (Suc i) s) @ [d]"
proof -
  let ?g = "take n (drop (Suc i) s)"
  have a: "drop i s = d # drop (Suc i) s" using drop_nth_Cons[OF i(1)] i(2) by simp
  have c: "drop n (drop (Suc i) s) = d # drop (Suc (Suc i + n)) s"
    using drop_nth_Cons[OF j(1)] j(2) by (simp add: add.commute)
  have bc: "drop (Suc i) s = ?g @ d # drop (Suc (Suc i + n)) s"
    by (metis c append_take_drop_id)
  have len: "length ?g = n" using j(1) by simp
  have "take (Suc (Suc n)) (drop i s) = d # take (Suc n) (drop (Suc i) s)"
    by (simp only: a take_Suc_Cons)
  also have "take (Suc n) (drop (Suc i) s) = take (Suc n) (?g @ d # drop (Suc (Suc i + n)) s)"
    using bc by simp
  also have "\<dots> = ?g @ [d]" using len by simp
  finally show ?thesis by simp
qed

lemma single_delimiter_shape:
  assumes "regexMatch [lit d, Rep True (NotLit d) 1 None, lit d] s = Some m"
  shows "delimited [d] s m"
proof -
  from regexMatch_found[OF assms] obtain e caps where
    ma: "matchAtoms [lit d, Rep True (NotLit d) 1 None, lit d] s (m_index m) [] = Some (e, caps)"
    and full: "m_full m = take (e - m_index m) (drop (m_index m) s)" and g: "m_groups m = caps"
    by blast
  let ?i = "m_index m"
  from lit_step[OF ma] have i: "?i < length s" "s ! ?i = d"
    and m1: "matchAtoms [Rep True (NotLit d) 1 None, lit d] s (Suc ?i) [] = Some (e, caps)"
    by auto
  from notlit_step[OF m1] obtain n where n: "1 \<le> n" "Suc ?i + n \<le> length s"
    "d \<notin> set (take n (drop (Suc ?i) s))"
    and m2: "matchAtoms [lit d] s (Suc ?i + n) ([] @ [take n (drop (Suc ?i) s)]) = Some (e, caps)"
    by blast
  from lit_step[OF m2] have j: "Suc ?i + n < length s" "s ! (Suc ?i + n) = d"
    and e: "e = Suc (Suc ?i + n)" and caps: "caps = [take n (drop (Suc ?i) s)]" by auto
  have g1: "matchGroup m 1 = take n (drop (Suc ?i) s)"
    using g caps by (simp add: matchGroup_def)
  have ne: "take n (drop (Suc ?i) s) \<noteq> []" using n(1) j(1) by auto
  have "m_full m = [d] @ take n (drop (Suc ?i) s) @ [d]"
    using one_delimiter_shape[OF i n(1,3) j] full e by simp
  then show ?thesis
    using g1 ne n(3) delimited_split[OF assms] by (simp add: delimited_def)
qed

lemma guarded_delimiter_shape:
  assumes "regexMatch [NotBehind d, lit d, Rep True (NotLit d) 1 None, lit d, NotAhead d] s = Some m"
  shows "delimited [d] s m \<and> notAdjacent d s m"
proof -
  from regexMatch_found[OF assms] obtain e caps where
    ma: "matchAtoms [NotBehind d, lit d, Rep True (NotLit d) 1 None, lit d, NotAhead d] s
           (m_index m) [] = Some (e, caps)"
    and ie: "m_index m \<le> e" "e \<le> length s"
    and full: "m_full m = take (e - m_index m) (drop (m_index m) s)" and g: "m_groups m = caps"
    by blast
  let ?i = "m_index m"
  from ma have nb: "\<not> (0 < ?i \<and> s ! (?i - 1) = d)"
    and m0: "matchAtoms [lit d, Rep True (NotLit d) 1 None, lit d, NotAhead d] s ?i []
             = Some (e, caps)"
    by (auto split: if_splits)
  from lit_step[OF m0] have i: "?i < length s" "s ! ?i = d"
    and m1: "matchAtoms [Rep True (NotLit d) 1 None, lit d, NotAhead d] s (Suc ?i) []
             = Some (e, caps)"
    by auto
  from notlit_step[OF m1] obtain n where n: "1 \<le> n" "Suc ?i + n \<le> length s"
    "d \<notin> set (take n (drop (Suc ?i) s))"
    and m2: "matchAtoms [lit d, NotAhead d] s (Suc ?i + n) ([] @ [take n (drop (Suc ?i) s)])
             = Some (e, caps)"
    by blast
  from lit_step[OF m2] have j: "Suc ?i + n < length s" "s ! (Suc ?i + n) = d"
    and m3: "matchAtoms [NotAhead d] s (Suc (Suc ?i + n)) ([] @ [take n (drop (Suc ?i) s)])
             = Some (e, caps)"
    by auto
  from m3 have na: "\<not> (Suc (Suc ?i + n) < length s \<and> s ! Suc (Suc ?i + n) = d)"
    and e: "e = Suc (Suc ?i + n)" and caps: "caps = [take n (drop (Suc ?i) s)]"
    by (auto split: if_splits)
  have g1: "matchGroup m 1 = take n (drop (Suc ?i) s)"
    using g caps by (simp add: matchGroup_def)
  have ne: "take n (drop (Suc ?i) s) \<noteq> []" using n(1) j(1) by auto
  have f: "m_full m = [d] @ take n (drop (Suc ?i) s) @ [d]"
    using one_delimiter_shape[OF i n(1,3) j] full e by simp
  have len: "length (m_full m) = Suc (Suc n)" using f j(1) by simp
  have "delimited [d] s m"
    using f g1 ne n(3) delimited_split[OF assms] by (simp add: delimited_def)
  moreover have "notAdjacent d s m"
    using nb na len by (simp add: notAdjacent_def)
  ultimately show ?thesis by simp
qed

lemma double_delimiter_shape:
  assumes "regexMatch [lit d, lit d, Rep True (NotLit d) 1 None, lit d, lit d] s = Some m"
  shows "delimited [d, d] s m"
proof -
  from regexMatch_found[OF assms] obtain e caps where
    ma: "matchAtoms [lit d, lit d, Rep True (NotLit d) 1 None, lit d, lit d] s (m_index m) []
           = Some (e, caps)"
    and full: "m_full m = take (e - m_index m) (drop (m_index m) s)" and g: "m_groups m = caps"
    by blast
  let ?i = "m_index m"
  from lit_step[OF ma] have i0: "?i < length s" "s ! ?i = d"
    and m0: "matchAtoms [lit d, Rep True (NotLit d) 1 None, lit d, lit d] s (Suc ?i) []
             = Some (e, caps)"
    by auto
  from lit_step[OF m0] have i: "Suc ?i < length s" "s ! Suc ?i = d"
    and m1: "matchAtoms [Rep True (NotLit d) 1 None, lit d, lit d] s (Suc (Suc ?i)) []
             = Some (e, caps)"
    by auto
  from notlit_step[OF m1] obtain n where n: "1 \<le> n"
    "d \<notin> set (take n (drop (Suc (Suc ?i)) s))"
    and m2: "matchAtoms [lit d, lit d] s (Suc (Suc ?i) + n)
               ([] @ [take n (drop (Suc (Suc ?i)) s)]) = Some (e, caps)"
    by blast
  from lit_step[OF m2] have j: "Suc (Suc ?i) + n < length s" "s ! (Suc (Suc ?i) + n) = d"
    and m3: "matchAtoms [lit d] s (Suc (Suc (Suc ?i) + n))
               ([] @ [take n (drop (Suc (Suc ?i)) s)]) = Some (e, caps)"
    by auto
  from lit_step[OF m3] have k: "Suc (Suc (Suc ?i) + n) < length s"
    "s ! Suc (Suc (Suc ?i) + n) = d"
    and e: "e = Suc (Suc (Suc (Suc ?i) + n))" and caps: "caps = [take n (drop (Suc (Suc ?i)) s)]"
    by auto
  let ?g = "take n (drop (Suc (Suc ?i)) s)"
  have g1: "matchGroup m 1 = ?g" using g caps by (simp add: matchGroup_def)
  have ne: "?g \<noteq> []" using n(1) j(1) by auto
  have inner: "take (Suc (Suc n)) (drop (Suc ?i) s) = [d] @ ?g @ [d]"
    by (rule one_delimiter_shape[OF i n j])
  have a: "drop ?i s = d # drop (Suc ?i) s" using drop_nth_Cons[OF i0(1)] i0(2) by simp
  have l: "Suc (Suc n) < length (drop (Suc ?i) s)" using k(1) by simp
  have last: "drop (Suc ?i) s ! Suc (Suc n) = d" using k by (simp add: add.commute)
  have "take (Suc (Suc (Suc (Suc n)))) (drop ?i s) = d # take (Suc (Suc (Suc n))) (drop (Suc ?i) s)"
    by (simp only: a take_Suc_Cons)
  also have "take (Suc (Suc (Suc n))) (drop (Suc ?i) s)
             = take (Suc (Suc n)) (drop (Suc ?i) s) @ [drop (Suc ?i) s ! Suc (Suc n)]"
    by (rule take_Suc_conv_app_nth[OF l])
  also have "\<dots> = ([d] @ ?g @ [d]) @ [d]" by (simp only: inner last)
  finally have F: "take (Suc (Suc (Suc (Suc n)))) (drop ?i s) = [d, d] @ ?g @ [d, d]" by simp
  have en: "e - ?i = Suc (Suc (Suc (Suc n)))" using e by simp
  have f: "m_full m = [d, d] @ ?g @ [d, d]" unfolding full en by (rule F)
  show ?thesis
    using f g1 ne n(2) delimited_split[OF assms] by (simp add: delimited_def)
qed

lemma inline_shapes:
  "regexMatch boldStarRegex s = Some m \<Longrightarrow> delimited ''**'' s m"
  "regexMatch boldUnderscoreRegex s = Some m \<Longrightarrow> delimited ''__'' s m"
  "regexMatch italicStarRegex s = Some m \<Longrightarrow> delimited ''*'' s m \<and> notAdjacent (CHR ''*'') s m"
  "regexMatch italicUnderscoreRegex s = Some m \<Longrightarrow> delimited ''_'' s m \<and> notAdjacent (CHR ''_'') s m"
  "regexMatch codeRegex s = Some m \<Longrightarrow> delimited [CHR 0x60] s m"
  unfolding boldStarRegex_def boldUnderscoreRegex_def italicStarRegex_def
    italicUnderscoreRegex_def codeRegex_def
  by (rule double_delimiter_shape double_delimiter_shape guarded_delimiter_shape
      single_delimiter_shape, assumption)+

section \<open>The text a transform leaves\<close>












section \<open>The documents table\<close>

lemma latestRows_append_newest:
  assumes "list_all (\<lambda>r. updated_at r < updated_at new) rows"
  shows "latestRows (rows @ [new]) = [new]"
proof -
  have old: "filter (\<lambda>r. list_all (\<lambda>r'. updated_at r' \<le> updated_at r) (rows @ [new])) rows = []"
    using assms by (auto simp: filter_empty_conv list_all_iff)
  have new: "list_all (\<lambda>r'. updated_at r' \<le> updated_at new) (rows @ [new])"
    using assms by (auto simp: list_all_iff intro: less_imp_le)
  show ?thesis
    unfolding latestRows_def using old new by simp
qed

lemma latestRows_append_not_older:
  assumes "list_all (\<lambda>r. updated_at r \<le> updated_at new) rows"
  shows "new \<in> set (latestRows (rows @ [new]))"
  using assms by (simp add: latestRows_def)

lemma fold_max_ge: "x \<in> set xs \<Longrightarrow> x \<le> fold max xs (a::nat)"
proof (induction xs arbitrary: a)
  case Nil
  then show ?case by simp
next
  case (Cons y ys)
  have mono: "a \<le> fold max ys a" for a :: nat
    by (induction ys arbitrary: a) (auto intro: order_trans[OF max.cobounded2])
  show ?case
  proof (cases "x = y")
    case True
    then show ?thesis using mono[of "max y a"] by simp
  next
    case False
    with Cons show ?thesis by simp
  qed
qed

lemma largestId_ge: "r \<in> set (tableRows tbl) \<Longrightarrow> doc_id r \<le> largestId tbl"
  using fold_max_ge[of "doc_id r" "map doc_id (tableRows tbl)" 0]
  by (simp add: largestId_def max.coboundedI2)

section \<open>The claims\<close>

subsection \<open>C1: a trigger prefix and a space on an empty line\<close>

text \<open>
  C1 (as amended). The text run holds a trigger prefix and the space just typed, the
  caret is behind the space, and the run has a parent. For the list prefixes \<open>-\<close>,
  \<open>*\<close>, \<open>+\<close> the run is replaced by exactly one \<open>ul\<close> with one empty \<open>li\<close>, and for the
  blockquote prefix by exactly one empty \<open>blockquote\<close>; the caret is inside the new
  \<open>li\<close> or \<open>blockquote\<close>, at offset 0, when that element is in the document
  (\<open>addRange\<close> leaves the selection empty otherwise), and it is in the document when the
  text run was, as a run that holds the caret is. For the heading prefixes (one to six
  \<open>#\<close>) nothing is transformed: the heading pattern needs a character behind the
  whitespace.
\<close>

theorem prefix_space_on_empty_line:
  assumes sel: "selection st = Some (r # rs)" "startContainer r = t"
      "startOffset r = Suc (length prefix)"
    and tn: "nodeAt (doc st) t = Some (Text (prefix @ '' ''))"
    and par: "parentNode (doc st) t = Some p"
    and node: "nodeAt (doc st) p = Some (Element tag (xs @ t # ys))" "t \<notin> set xs"
    and n: "n = length (doc st)"
  shows "(prefix \<in> {''-'', ''*'', ''+''} \<longrightarrow>
           processSpaceTriggeredFormatting st =
             Inr (st\<lparr>isProcessing := True,
                     doc := (doc st)[p := Element tag (xs @ Suc n # ys)]
                            @ [Element ''li'' [], Element ''ul'' [n]],
                     selection := Some
                       (if rootNode ((doc st)[p := Element tag (xs @ Suc n # ys)]
                                       @ [Element ''li'' [], Element ''ul'' [n]]) n
                           = Some (documentNode st)
                        then [collapsedAt n 0] else []),
                     resetTimers := Suc (resetTimers st)\<rparr>))
       \<and> (prefix = ''>'' \<longrightarrow>
           processSpaceTriggeredFormatting st =
             Inr (st\<lparr>isProcessing := True,
                     doc := (doc st)[p := Element tag (xs @ n # ys)] @ [Element ''blockquote'' []],
                     selection := Some
                       (if rootNode ((doc st)[p := Element tag (xs @ n # ys)]
                                       @ [Element ''blockquote'' []]) n
                           = Some (documentNode st)
                        then [collapsedAt n 0] else []),
                     resetTimers := Suc (resetTimers st)\<rparr>))
       \<and> (prefix \<in> {''#'', ''##'', ''###'', ''####'', ''#####'', ''######''} \<longrightarrow>
           processSpaceTriggeredFormatting st = Inr st)
       \<and> (wellFormed (doc st) \<and> rootNode (doc st) t = Some (documentNode st) \<longrightarrow>
           rootNode ((doc st)[p := Element tag (xs @ Suc n # ys)]
                       @ [Element ''li'' [], Element ''ul'' [n]]) n = Some (documentNode st)
         \<and> rootNode ((doc st)[p := Element tag (xs @ n # ys)] @ [Element ''blockquote'' []]) n
             = Some (documentNode st))"
proof -
  from nodeAt_SomeD[OF tn] have t: "t < length (doc st)" by simp
  have tn': "nodeAt (doc st) (startContainer r) = Some (Text (prefix @ '' ''))"
    using tn sel(2) by simp
  note run = processSpace_on_run[OF sel(1) tn', unfolded sel(2,3), simplified]
  have li: "replaceWithList t [] [] st =
     Inr (st\<lparr>isProcessing := True,
             doc := (doc st)[p := Element tag (xs @ Suc n # ys)]
                    @ [Element ''li'' [], Element ''ul'' [n]],
             selection := Some
               (if rootNode ((doc st)[p := Element tag (xs @ Suc n # ys)]
                               @ [Element ''li'' [], Element ''ul'' [n]]) n
                   = Some (documentNode st)
                then [collapsedAt n 0] else []),
             resetTimers := Suc (resetTimers st)\<rparr>)"
    using replaceWithList_parent[OF par node t n refl refl, of "[]" "[]"] sel(1)
    by (simp add: elemNodes_def afterNodes_Nil replaceRanges_def startContainer_collapsedAt)
  have bq: "replaceWithBlockquote t [] [] st =
     Inr (st\<lparr>isProcessing := True,
             doc := (doc st)[p := Element tag (xs @ n # ys)] @ [Element ''blockquote'' []],
             selection := Some
               (if rootNode ((doc st)[p := Element tag (xs @ n # ys)]
                               @ [Element ''blockquote'' []]) n
                   = Some (documentNode st)
                then [collapsedAt n 0] else []),
             resetTimers := Suc (resetTimers st)\<rparr>)"
    using replaceWithBlockquote_parent[OF par node t n refl, of "[]" "[]"] sel(1)
    by (simp add: elemNodes_def afterNodes_Nil replaceRanges_def startContainer_collapsedAt)
  have h: "regexMatch headingRegex ''- '' = None" "regexMatch headingRegex ''* '' = None"
    "regexMatch headingRegex ''+ '' = None" "regexMatch headingRegex ''> '' = None"
    "regexMatch headingRegex ''# '' = None" "regexMatch headingRegex ''## '' = None"
    "regexMatch headingRegex ''### '' = None" "regexMatch headingRegex ''#### '' = None"
    "regexMatch headingRegex ''##### '' = None" "regexMatch headingRegex ''###### '' = None"
    by code_simp+
  have l: "regexMatch listRegex ''- '' = Some \<lparr>m_index = 0, m_full = ''- '', m_groups = [[]]\<rparr>"
    "regexMatch listRegex ''* '' = Some \<lparr>m_index = 0, m_full = ''* '', m_groups = [[]]\<rparr>"
    "regexMatch listRegex ''+ '' = Some \<lparr>m_index = 0, m_full = ''+ '', m_groups = [[]]\<rparr>"
    "regexMatch listRegex ''> '' = None"
    "regexMatch listRegex ''# '' = None" "regexMatch listRegex ''## '' = None"
    "regexMatch listRegex ''### '' = None" "regexMatch listRegex ''#### '' = None"
    "regexMatch listRegex ''##### '' = None" "regexMatch listRegex ''###### '' = None"
    by code_simp+
  have b: "regexMatch blockquoteRegex ''> '' = Some \<lparr>m_index = 0, m_full = ''> '', m_groups = [[]]\<rparr>"
    "regexMatch blockquoteRegex ''# '' = None" "regexMatch blockquoteRegex ''## '' = None"
    "regexMatch blockquoteRegex ''### '' = None" "regexMatch blockquoteRegex ''#### '' = None"
    "regexMatch blockquoteRegex ''##### '' = None" "regexMatch blockquoteRegex ''###### '' = None"
    by code_simp+
  have first: "(prefix \<in> {''-'', ''*'', ''+''} \<longrightarrow>
           processSpaceTriggeredFormatting st =
             Inr (st\<lparr>isProcessing := True,
                     doc := (doc st)[p := Element tag (xs @ Suc n # ys)]
                            @ [Element ''li'' [], Element ''ul'' [n]],
                     selection := Some
                       (if rootNode ((doc st)[p := Element tag (xs @ Suc n # ys)]
                                       @ [Element ''li'' [], Element ''ul'' [n]]) n
                           = Some (documentNode st)
                        then [collapsedAt n 0] else []),
                     resetTimers := Suc (resetTimers st)\<rparr>))
       \<and> (prefix = ''>'' \<longrightarrow>
           processSpaceTriggeredFormatting st =
             Inr (st\<lparr>isProcessing := True,
                     doc := (doc st)[p := Element tag (xs @ n # ys)] @ [Element ''blockquote'' []],
                     selection := Some
                       (if rootNode ((doc st)[p := Element tag (xs @ n # ys)]
                                       @ [Element ''blockquote'' []]) n
                           = Some (documentNode st)
                        then [collapsedAt n 0] else []),
                     resetTimers := Suc (resetTimers st)\<rparr>))
       \<and> (prefix \<in> {''#'', ''##'', ''###'', ''####'', ''#####'', ''######''} \<longrightarrow>
           processSpaceTriggeredFormatting st = Inr st)"
    using run li bq by (auto simp: h l b matchGroup_def)
  have conn: "rootNode ((doc st)[p := Element tag (xs @ Suc n # ys)]
                       @ [Element ''li'' [], Element ''ul'' [n]]) n = Some (documentNode st)
         \<and> rootNode ((doc st)[p := Element tag (xs @ n # ys)] @ [Element ''blockquote'' []]) n
             = Some (documentNode st)"
    if wf: "wellFormed (doc st)" and root: "rootNode (doc st) t = Some (documentNode st)"
    using rootNode_list_host[where inner = "[]" and after = "[]", OF par node(1) tn wf root n refl refl]
      rootNode_block_host[where etag = "''blockquote''" and inner = "[]" and after = "[]",
        OF par node(1) tn wf root n refl]
    by (simp add: elemNodes_def afterNodes_Nil)
  from first conn show ?thesis by blast
qed

text \<open>
  The theorem at a \<open>div\<close> whose only child is the text \<open>- \<close>.
\<close>

theorem prefix_space_on_empty_line_witness:
  "selection (caretIn [Element ''div'' [1], Text ''- ''] 1 2) = Some [collapsedAt 1 2]
   \<and> nodeAt (doc (caretIn [Element ''div'' [1], Text ''- ''] 1 2)) 1 = Some (Text (''-'' @ '' ''))
   \<and> parentNode (doc (caretIn [Element ''div'' [1], Text ''- ''] 1 2)) 1 = Some 0
   \<and> nodeAt (doc (caretIn [Element ''div'' [1], Text ''- ''] 1 2)) 0
        = Some (Element ''div'' ([] @ 1 # []))
   \<and> wellFormed (doc (caretIn [Element ''div'' [1], Text ''- ''] 1 2))
   \<and> rootNode (doc (caretIn [Element ''div'' [1], Text ''- ''] 1 2)) 1
        = Some (documentNode (caretIn [Element ''div'' [1], Text ''- ''] 1 2))
   \<and> processSpaceTriggeredFormatting (caretIn [Element ''div'' [1], Text ''- ''] 1 2) =
        Inr \<lparr>doc = [Element ''div'' [3], Text ''- '', Element ''li'' [], Element ''ul'' [2]],
             selection = Some [collapsedAt 2 0], isProcessing = True, resetTimers = 1,
             documentNode = 0, editorEl = 0, emptyClass = False, debounceTimer = False\<rparr>"
proof -
  let ?st = "caretIn [Element ''div'' [1], Text ''- ''] 1 2"
  have h1: "selection ?st = Some (collapsedAt 1 2 # [])" by (simp add: caretIn_def)
  have h2: "startContainer (collapsedAt 1 2) = 1" by (simp add: collapsedAt_def)
  have h3: "startOffset (collapsedAt 1 2) = Suc (length ''-'')" by (simp add: collapsedAt_def)
  have h4: "nodeAt (doc ?st) 1 = Some (Text (''-'' @ '' ''))" by (simp add: caretIn_def nodeAt_def)
  have h5: "parentNode (doc ?st) 1 = Some 0" by code_simp
  have h6: "nodeAt (doc ?st) 0 = Some (Element ''div'' ([] @ 1 # []))"
    by (simp add: caretIn_def nodeAt_def)
  have h7: "(1::nat) \<notin> set []" by simp
  have h8: "(2::nat) = length (doc ?st)" by (simp add: caretIn_def)
  have h9: "wellFormed (doc ?st)" by code_simp
  have h10: "rootNode (doc ?st) 1 = Some (documentNode ?st)" by code_simp
  from prefix_space_on_empty_line[OF h1 h2 h3 h4 h5 h6 h7 h8] h9 h10
  have "processSpaceTriggeredFormatting ?st =
             Inr (?st\<lparr>isProcessing := True,
                     doc := (doc ?st)[0 := Element ''div'' ([] @ Suc 2 # [])]
                            @ [Element ''li'' [], Element ''ul'' [2]],
                     selection := Some [collapsedAt 2 0],
                     resetTimers := Suc (resetTimers ?st)\<rparr>)"
    by simp
  then have "processSpaceTriggeredFormatting ?st =
        Inr \<lparr>doc = [Element ''div'' [3], Text ''- '', Element ''li'' [], Element ''ul'' [2]],
             selection = Some [collapsedAt 2 0], isProcessing = True, resetTimers = 1,
             documentNode = 0, editorEl = 0, emptyClass = False, debounceTimer = False\<rparr>"
    by (simp add: caretIn_def)
  with h1 h4 h5 h6 h9 h10 show ?thesis by simp
qed

text \<open>
  The text \<open>#\<close> and a space, the caret behind them: the editor is left as it was, no
  heading is made.
\<close>

theorem prefix_space_heading_counterexample:
  "processSpaceTriggeredFormatting (caretIn [Element ''div'' [1], Text ''# ''] 1 2)
   = Inr (caretIn [Element ''div'' [1], Text ''# ''] 1 2)"
  by code_simp

subsection \<open>C2: the heading trigger\<close>

text \<open>
  C2 (as amended). A typed space makes a heading exactly when the text before the caret
  is one to six \<open>#\<close>, then at least one whitespace character, then at least one more
  character with no line terminator among them; that character may be a space. This is
  when the heading pattern matches. On a match the level is the number of leading \<open>#\<close>,
  and (the text run having a parent) the run is replaced by an element \<open>h<level>\<close>, the
  only element the event creates, whose only child is a text node with the captured
  remainder. Without a match the event creates a list, a blockquote or nothing.
\<close>

theorem heading_trigger:
  assumes sel: "selection st = Some (r # rs)" "startContainer r = t" "startOffset r = off"
    and tn: "nodeAt (doc st) t = Some (Text tc)"
    and par: "parentNode (doc st) t = Some p"
    and node: "nodeAt (doc st) p = Some (Element tag (xs @ t # ys))" "t \<notin> set xs"
    and n: "n = length (doc st)"
  shows "(headingMade st (processSpaceTriggeredFormatting st) =
          (\<exists>k ws rest. take off tc = replicate k (CHR ''#'') @ ws @ rest \<and> 1 \<le> k \<and> k \<le> 6
             \<and> ws \<noteq> [] \<and> (\<forall>c\<in>set ws. isWhiteSpace c)
             \<and> rest \<noteq> [] \<and> (\<forall>c\<in>set rest. \<not> isLineTerminator c)))
       \<and> ((regexMatch headingRegex (take off tc) \<noteq> None) =
          (\<exists>k ws rest. take off tc = replicate k (CHR ''#'') @ ws @ rest \<and> 1 \<le> k \<and> k \<le> 6
             \<and> ws \<noteq> [] \<and> (\<forall>c\<in>set ws. isWhiteSpace c)
             \<and> rest \<noteq> [] \<and> (\<forall>c\<in>set rest. \<not> isLineTerminator c)))
       \<and> (regexMatch headingRegex (take off tc) = Some m \<longrightarrow>
            (\<exists>k ws rest st'.
               take off tc = replicate k (CHR ''#'') @ ws @ rest \<and> 1 \<le> k \<and> k \<le> 6
             \<and> ws \<noteq> [] \<and> (\<forall>c\<in>set ws. isWhiteSpace c)
             \<and> rest \<noteq> [] \<and> (\<forall>c\<in>set rest. \<not> isLineTerminator c)
             \<and> k = length (takeWhile (\<lambda>c. c = CHR ''#'') (take off tc))
             \<and> matchGroup m 1 = replicate k (CHR ''#'') \<and> matchGroup m 2 = rest
             \<and> processSpaceTriggeredFormatting st = Inr st'
             \<and> createdTags st st' = [''h'' @ [digitChar k]]
             \<and> n \<in> set (childNodes (doc st') p)
             \<and> nodeAt (doc st') n = Some (Element (''h'' @ [digitChar k]) [Suc n])
             \<and> nodeAt (doc st') (Suc n) = Some (Text rest)
             \<and> textContent (doc st') n = rest))
       \<and> (regexMatch headingRegex (take off tc) = None \<longrightarrow>
            (\<exists>st'. processSpaceTriggeredFormatting st = Inr st'
               \<and> createdTags st st' \<in> {[], [''li'', ''ul''], [''blockquote'']}))"
proof -
  let ?shape = "\<exists>k ws rest. take off tc = replicate k (CHR ''#'') @ ws @ rest \<and> 1 \<le> k \<and> k \<le> 6
             \<and> ws \<noteq> [] \<and> (\<forall>c\<in>set ws. isWhiteSpace c)
             \<and> rest \<noteq> [] \<and> (\<forall>c\<in>set rest. \<not> isLineTerminator c)"
  from nodeAt_SomeD[OF tn] have t: "t < length (doc st)" by simp
  have tn': "nodeAt (doc st) (startContainer r) = Some (Text tc)" using tn sel(2) by simp
  have len: "length ((doc st)[p := v]) = length (doc st)" for v by simp
  have A: "(regexMatch headingRegex (take off tc) \<noteq> None) = ?shape"
  proof
    assume "regexMatch headingRegex (take off tc) \<noteq> None"
    then obtain m' where "regexMatch headingRegex (take off tc) = Some m'" by blast
    from headingMatch_SomeD[OF this] show ?shape by blast
  next
    assume ?shape
    then show "regexMatch headingRegex (take off tc) \<noteq> None"
      using headingMatch_SomeI by blast
  qed
  have B: "\<exists>k ws rest st'.
               take off tc = replicate k (CHR ''#'') @ ws @ rest \<and> 1 \<le> k \<and> k \<le> 6
             \<and> ws \<noteq> [] \<and> (\<forall>c\<in>set ws. isWhiteSpace c)
             \<and> rest \<noteq> [] \<and> (\<forall>c\<in>set rest. \<not> isLineTerminator c)
             \<and> k = length (takeWhile (\<lambda>c. c = CHR ''#'') (take off tc))
             \<and> matchGroup m 1 = replicate k (CHR ''#'') \<and> matchGroup m 2 = rest
             \<and> processSpaceTriggeredFormatting st = Inr st'
             \<and> createdTags st st' = [''h'' @ [digitChar k]]
             \<and> n \<in> set (childNodes (doc st') p)
             \<and> nodeAt (doc st') n = Some (Element (''h'' @ [digitChar k]) [Suc n])
             \<and> nodeAt (doc st') (Suc n) = Some (Text rest)
             \<and> textContent (doc st') n = rest"
    if m: "regexMatch headingRegex (take off tc) = Some m" for m
  proof -
    from headingMatch_SomeD[OF m] obtain k ws rest where
      d: "take off tc = replicate k (CHR ''#'') @ ws @ rest" "1 \<le> k" "k \<le> 6"
        "ws \<noteq> []" "\<forall>c\<in>set ws. isWhiteSpace c" "rest \<noteq> []" "\<forall>c\<in>set rest. \<not> isLineTerminator c"
      and mm: "m = \<lparr>m_index = 0, m_full = take off tc, m_groups = [replicate k (CHR ''#''), rest]\<rparr>"
      by blast
    let ?E = "elemNodes (''h'' @ numberToString k) n rest"
    let ?D = "(doc st)[p := Element tag (xs @ n # afterIds (drop off tc) (n + length ?E) @ ys)]
              @ ?E @ afterNodes (drop off tc)"
    let ?st' = "st\<lparr>isProcessing := True, doc := ?D,
               selection := replaceRanges ?D (documentNode st)
                 (collapsedAt n (if rest = [] then 0 else 1)) (selection st),
               resetTimers := Suc (resetTimers st)\<rparr>"
    have g: "matchGroup m 1 = replicate k (CHR ''#'')" "matchGroup m 2 = rest"
      "matchGroup m (Suc 0) = replicate k (CHR ''#'')"
      by (simp_all add: mm matchGroup_def)
    have run: "processSpaceTriggeredFormatting st = Inr ?st'"
      unfolding processSpace_on_run[OF sel(1) tn'] sel(2,3) m
      using replaceWithHeading_parent[OF par node t n refl, of k rest "drop off tc"]
      by (simp add: g)
    from nodeAt_SomeD[OF node(1)] have p: "p < length (doc st)" by simp
    have len': "length ((doc st)[p := Element tag (xs @ n # afterIds (drop off tc) (n + length ?E) @ ys)]) = n"
      using n by simp
    have c: "n \<in> set (childNodes ?D p)"
      using p by (simp add: childNodes_update_same)
    have k10: "k < 10" using d(3) by simp
    have na: "nodeAt ?D n = Some (Element (''h'' @ [digitChar k]) [Suc n])"
      using nodeAt_elemNodes[OF len', of "''h'' @ numberToString k" rest "afterNodes (drop off tc)"] d(6)
      by (simp add: numberToString_digit[OF k10])
    have nt: "nodeAt ?D (Suc n) = Some (Text rest)"
      by (rule nodeAt_elemNodes_text[OF len' d(6)])
    have tx: "textContent ?D n = rest"
      by (rule textContent_elemNodes[OF len'])
    have lead: "k = length (takeWhile (\<lambda>c. c = CHR ''#'') (take off tc))"
      unfolding d(1) using leading_hashes[OF d(4,5)] by simp
    have ct: "createdTags st ?st' = [''h'' @ [digitChar k]]"
      using n by (simp add: createdTags_def tagsOf_append tagsOf_nodes numberToString_digit[OF k10])
    show ?thesis
      using d g run c na nt tx lead ct
      by (intro exI[of _ k] exI[of _ ws] exI[of _ rest] exI[of _ ?st']) simp
  qed
  have C: "\<exists>st'. processSpaceTriggeredFormatting st = Inr st'
               \<and> createdTags st st' \<in> {[], [''li'', ''ul''], [''blockquote'']}"
    if m: "regexMatch headingRegex (take off tc) = None"
  proof (cases "regexMatch listRegex (take off tc)")
    case (Some lm)
    note l = replaceWithList_parent[OF par node t n refl refl, of "matchGroup lm 1" "drop off tc"]
    have run: "processSpaceTriggeredFormatting st = replaceWithList t (matchGroup lm 1) (drop off tc) st"
      unfolding processSpace_on_run[OF sel(1) tn'] sel(2,3) m Some by simp
    show ?thesis
      unfolding run l
      using n by (simp add: createdTags_def tagsOf_append tagsOf_nodes)
  next
    case None
    note ln = None
    show ?thesis
    proof (cases "regexMatch blockquoteRegex (take off tc)")
      case (Some bm)
      note q = replaceWithBlockquote_parent[OF par node t n refl, of "matchGroup bm 1" "drop off tc"]
      have run: "processSpaceTriggeredFormatting st
                 = replaceWithBlockquote t (matchGroup bm 1) (drop off tc) st"
        unfolding processSpace_on_run[OF sel(1) tn'] sel(2,3) m ln Some by simp
      show ?thesis
        unfolding run q
        using n by (simp add: createdTags_def tagsOf_append tagsOf_nodes)
    next
      case None
      have run: "processSpaceTriggeredFormatting st = Inr st"
        unfolding processSpace_on_run[OF sel(1) tn'] sel(2,3) m ln None by simp
      show ?thesis unfolding run by (simp add: createdTags_same)
    qed
  qed
  have D: "headingMade st (processSpaceTriggeredFormatting st) = ?shape"
  proof (cases "regexMatch headingRegex (take off tc)")
    case None
    from C[OF None] obtain st' where
      "processSpaceTriggeredFormatting st = Inr st'"
      "createdTags st st' \<in> {[], [''li'', ''ul''], [''blockquote'']}" by blast
    then have "\<not> headingMade st (processSpaceTriggeredFormatting st)"
      by (auto simp: headingMade_def)
    moreover have "\<not> ?shape" using A None by simp
    ultimately show ?thesis by simp
  next
    case (Some m)
    from B[OF Some] obtain k st' where k: "1 \<le> k" "k \<le> 6"
      and "processSpaceTriggeredFormatting st = Inr st'"
      "createdTags st st' = [''h'' @ [digitChar k]]" by blast
    then have "headingMade st (processSpaceTriggeredFormatting st)"
      using heading_tag[OF k] by (simp add: headingMade_def)
    moreover have ?shape using A Some by simp
    ultimately show ?thesis by simp
  qed
  from A B C D show ?thesis by blast
qed

text \<open>
  The theorem at the text \<open>## Title \<close>: an \<open>h2\<close> with the text \<open>Title \<close>; and at the
  text \<open>- x \<close>: no heading, a list.
\<close>

theorem heading_trigger_witness:
  "selection (caretIn [Element ''div'' [1], Text ''## Title ''] 1 9) = Some [collapsedAt 1 9]
   \<and> nodeAt (doc (caretIn [Element ''div'' [1], Text ''## Title ''] 1 9)) 1
       = Some (Text ''## Title '')
   \<and> parentNode (doc (caretIn [Element ''div'' [1], Text ''## Title ''] 1 9)) 1 = Some 0
   \<and> regexMatch headingRegex (take 9 ''## Title '')
       = Some \<lparr>m_index = 0, m_full = ''## Title '', m_groups = [''##'', ''Title '']\<rparr>
   \<and> processSpaceTriggeredFormatting (caretIn [Element ''div'' [1], Text ''## Title ''] 1 9)
       = Inr \<lparr>doc = [Element ''div'' [2], Text ''## Title '', Element ''h2'' [3], Text ''Title ''],
              selection = Some [collapsedAt 2 1], isProcessing = True, resetTimers = 1,
              documentNode = 0, editorEl = 0, emptyClass = False, debounceTimer = False\<rparr>
   \<and> headingMade (caretIn [Element ''div'' [1], Text ''## Title ''] 1 9)
       (processSpaceTriggeredFormatting (caretIn [Element ''div'' [1], Text ''## Title ''] 1 9))
   \<and> (\<exists>k ws rest st'.
         take 9 ''## Title '' = replicate k (CHR ''#'') @ ws @ rest \<and> 1 \<le> k \<and> k \<le> 6
       \<and> ws \<noteq> [] \<and> (\<forall>c\<in>set ws. isWhiteSpace c)
       \<and> rest \<noteq> [] \<and> (\<forall>c\<in>set rest. \<not> isLineTerminator c)
       \<and> k = length (takeWhile (\<lambda>c. c = CHR ''#'') (take 9 ''## Title ''))
       \<and> matchGroup \<lparr>m_index = 0, m_full = ''## Title '', m_groups = [''##'', ''Title '']\<rparr> 1
           = replicate k (CHR ''#'')
       \<and> matchGroup \<lparr>m_index = 0, m_full = ''## Title '', m_groups = [''##'', ''Title '']\<rparr> 2
           = rest
       \<and> processSpaceTriggeredFormatting (caretIn [Element ''div'' [1], Text ''## Title ''] 1 9)
           = Inr st'
       \<and> createdTags (caretIn [Element ''div'' [1], Text ''## Title ''] 1 9) st'
           = [''h'' @ [digitChar k]]
       \<and> 2 \<in> set (childNodes (doc st') 0)
       \<and> nodeAt (doc st') 2 = Some (Element (''h'' @ [digitChar k]) [Suc 2])
       \<and> nodeAt (doc st') (Suc 2) = Some (Text rest)
       \<and> textContent (doc st') 2 = rest)
   \<and> regexMatch headingRegex (take 4 ''- x '') = None
   \<and> \<not> headingMade (caretIn [Element ''div'' [1], Text ''- x ''] 1 4)
         (processSpaceTriggeredFormatting (caretIn [Element ''div'' [1], Text ''- x ''] 1 4))
   \<and> processSpaceTriggeredFormatting (caretIn [Element ''div'' [1], Text ''- x ''] 1 4)
       = Inr \<lparr>doc = [Element ''div'' [4], Text ''- x '', Element ''li'' [3], Text ''x '',
                     Element ''ul'' [2]],
              selection = Some [collapsedAt 2 1], isProcessing = True, resetTimers = 1,
              documentNode = 0, editorEl = 0, emptyClass = False, debounceTimer = False\<rparr>"
proof -
  let ?st = "caretIn [Element ''div'' [1], Text ''## Title ''] 1 9"
  have h1: "selection ?st = Some (collapsedAt 1 9 # [])" by (simp add: caretIn_def)
  have h2: "startContainer (collapsedAt 1 9) = 1" by (simp add: collapsedAt_def)
  have h3: "startOffset (collapsedAt 1 9) = 9" by (simp add: collapsedAt_def)
  have h4: "nodeAt (doc ?st) 1 = Some (Text ''## Title '')" by (simp add: caretIn_def nodeAt_def)
  have h5: "parentNode (doc ?st) 1 = Some 0" by code_simp
  have h6: "nodeAt (doc ?st) 0 = Some (Element ''div'' ([] @ 1 # []))"
    by (simp add: caretIn_def nodeAt_def)
  have h7: "(1::nat) \<notin> set []" by simp
  have h8: "(2::nat) = length (doc ?st)" by (simp add: caretIn_def)
  have m: "regexMatch headingRegex (take 9 ''## Title '')
       = Some \<lparr>m_index = 0, m_full = ''## Title '', m_groups = [''##'', ''Title '']\<rparr>"
    by code_simp
  have run: "processSpaceTriggeredFormatting ?st
       = Inr \<lparr>doc = [Element ''div'' [2], Text ''## Title '', Element ''h2'' [3], Text ''Title ''],
              selection = Some [collapsedAt 2 1], isProcessing = True, resetTimers = 1,
              documentNode = 0, editorEl = 0, emptyClass = False, debounceTimer = False\<rparr>"
    by code_simp
  note fact = heading_trigger[OF h1 h2 h3 h4 h5 h6 h7 h8]
  from fact m have made: "headingMade ?st (processSpaceTriggeredFormatting ?st)" by simp
  note ex = fact[THEN conjunct2, THEN conjunct2, THEN conjunct1, rule_format, OF m]
  let ?st2 = "caretIn [Element ''div'' [1], Text ''- x ''] 1 4"
  have g1: "selection ?st2 = Some (collapsedAt 1 4 # [])" by (simp add: caretIn_def)
  have g2: "startContainer (collapsedAt 1 4) = 1" by (simp add: collapsedAt_def)
  have g3: "startOffset (collapsedAt 1 4) = 4" by (simp add: collapsedAt_def)
  have g4: "nodeAt (doc ?st2) 1 = Some (Text ''- x '')" by (simp add: caretIn_def nodeAt_def)
  have g5: "parentNode (doc ?st2) 1 = Some 0" by code_simp
  have g6: "nodeAt (doc ?st2) 0 = Some (Element ''div'' ([] @ 1 # []))"
    by (simp add: caretIn_def nodeAt_def)
  have g8: "(2::nat) = length (doc ?st2)" by (simp add: caretIn_def)
  have m2: "regexMatch headingRegex (take 4 ''- x '') = None" by code_simp
  from heading_trigger[OF g1 g2 g3 g4 g5 g6 h7 g8] m2
  have none: "\<not> headingMade ?st2 (processSpaceTriggeredFormatting ?st2)" by simp
  have run2: "processSpaceTriggeredFormatting ?st2
       = Inr \<lparr>doc = [Element ''div'' [4], Text ''- x '', Element ''li'' [3], Text ''x '',
                     Element ''ul'' [2]],
              selection = Some [collapsedAt 2 1], isProcessing = True, resetTimers = 1,
              documentNode = 0, editorEl = 0, emptyClass = False, debounceTimer = False\<rparr>"
    by code_simp
  from ex made none show ?thesis using h1 h4 h5 m run m2 run2 by simp
qed

text \<open>
  One \<open>#\<close> and two spaces: no character that is not a space follows the whitespace,
  and the text is a heading trigger all the same; its \<open>h1\<close> holds one space.
\<close>

theorem heading_trigger_counterexample:
  "regexMatch headingRegex ''#  ''
     = Some \<lparr>m_index = 0, m_full = ''#  '', m_groups = [''#'', '' '']\<rparr>
   \<and> processSpaceTriggeredFormatting (caretIn [Element ''div'' [1], Text ''#  ''] 1 3)
     = Inr \<lparr>doc = [Element ''div'' [2], Text ''#  '', Element ''h1'' [3], Text '' ''],
            selection = Some [collapsedAt 2 1], isProcessing = True, resetTimers = 1,
            documentNode = 0, editorEl = 0, emptyClass = False, debounceTimer = False\<rparr>"
  by code_simp

subsection \<open>C3: at most one trigger, by precedence\<close>

text \<open>
  C3. Every insertion event does what the detector and rewriter of the specification do:
  at most one trigger match is found, by the precedence heading, list, blockquote for a
  typed space and bold, italic, inline code for other typed text, and only that match is
  transformed. No text matches two block triggers. An inline match is a pair of
  delimiters around a content that is not empty and has no delimiter character; an italic
  match has no further delimiter character right before or right behind it.
\<close>

theorem one_trigger_by_precedence:
  "processLiveFormatting e st =
     (case specDetect e st of
        None \<Rightarrow> Inr st
      | Some (t, afterText, tm) \<Rightarrow> specApplyTransform t afterText tm st)
   \<and> \<not> (regexMatch headingRegex s \<noteq> None \<and> regexMatch listRegex s \<noteq> None)
   \<and> \<not> (regexMatch headingRegex s \<noteq> None \<and> regexMatch blockquoteRegex s \<noteq> None)
   \<and> \<not> (regexMatch listRegex s \<noteq> None \<and> regexMatch blockquoteRegex s \<noteq> None)
   \<and> (regexMatch boldStarRegex s = Some m \<longrightarrow> delimited ''**'' s m)
   \<and> (regexMatch boldUnderscoreRegex s = Some m \<longrightarrow> delimited ''__'' s m)
   \<and> (regexMatch italicStarRegex s = Some m \<longrightarrow>
         delimited ''*'' s m \<and> notAdjacent (CHR ''*'') s m)
   \<and> (regexMatch italicUnderscoreRegex s = Some m \<longrightarrow>
         delimited ''_'' s m \<and> notAdjacent (CHR ''_'') s m)
   \<and> (regexMatch codeRegex s = Some m \<longrightarrow> delimited [CHR 0x60] s m)"
proof -
  have run: "processLiveFormatting e st =
     (case specDetect e st of
        None \<Rightarrow> Inr st
      | Some (t, afterText, tm) \<Rightarrow> specApplyTransform t afterText tm st)"
  proof (cases "caretRun st")
    case None
    then show ?thesis by (simp add: processLive_no_run specDetect_def)
  next
    case (Some run)
    obtain t tc off where run: "run = (t, tc, off)" by (cases run) auto
    from caretRun_SomeD[OF Some[unfolded run]] obtain r rs where
      r: "selection st = Some (r # rs)" "startContainer r = t" "startOffset r = off"
      "nodeAt (doc st) t = Some (Text tc)" by blast
    have tn: "nodeAt (doc st) (startContainer r) = Some (Text tc)" using r by simp
    show ?thesis
      unfolding processLiveFormatting_def processSpace_on_run[OF r(1) tn]
        processInline_on_run[OF r(1) tn] specDetect_def Some run r(2,3)
      by (simp add: specDetectBlock_def specDetectInline_def specApplyTransform_def
          split: option.splits)
  qed
  have hl: "\<not> (regexMatch headingRegex s \<noteq> None \<and> regexMatch listRegex s \<noteq> None)"
  proof
    assume "regexMatch headingRegex s \<noteq> None \<and> regexMatch listRegex s \<noteq> None"
    then obtain m1 m2 where "regexMatch headingRegex s = Some m1" "regexMatch listRegex s = Some m2"
      by auto
    from headingMatch_first[OF this(1)] listMatch_first[OF this(2)] show False by auto
  qed
  have hb: "\<not> (regexMatch headingRegex s \<noteq> None \<and> regexMatch blockquoteRegex s \<noteq> None)"
  proof
    assume "regexMatch headingRegex s \<noteq> None \<and> regexMatch blockquoteRegex s \<noteq> None"
    then obtain m1 m2 where "regexMatch headingRegex s = Some m1" "regexMatch blockquoteRegex s = Some m2"
      by auto
    from headingMatch_first[OF this(1)] blockquoteMatch_first[OF this(2)] show False by auto
  qed
  have lb: "\<not> (regexMatch listRegex s \<noteq> None \<and> regexMatch blockquoteRegex s \<noteq> None)"
  proof
    assume "regexMatch listRegex s \<noteq> None \<and> regexMatch blockquoteRegex s \<noteq> None"
    then obtain m1 m2 where "regexMatch listRegex s = Some m1" "regexMatch blockquoteRegex s = Some m2"
      by auto
    from listMatch_first[OF this(1)] blockquoteMatch_first[OF this(2)] show False by auto
  qed
  from run hl hb lb inline_shapes[of s m] show ?thesis by blast
qed

text \<open>
  In \<open>*a* **b**\<close> the italic pattern matches first in the text and the bold pattern
  behind it: the event transforms the bold match only. The italic match is \<open>*a*\<close>,
  delimited and not adjacent to an asterisk.
\<close>

theorem one_trigger_by_precedence_witness:
  "processLiveFormatting (charTyped (CHR ''*''))
     (caretIn [Element ''div'' [1], Text ''*a* **b**''] 1 9)
   = replaceWithBold 1 \<lparr>m_index = 4, m_full = ''**b**'', m_groups = [''b'']\<rparr>
       (caretIn [Element ''div'' [1], Text ''*a* **b**''] 1 9)
   \<and> regexMatch italicStarRegex ''*a* **b**''
     = Some \<lparr>m_index = 0, m_full = ''*a*'', m_groups = [''a'']\<rparr>
   \<and> delimited ''*'' ''*a* **b**'' \<lparr>m_index = 0, m_full = ''*a*'', m_groups = [''a'']\<rparr>
   \<and> notAdjacent (CHR ''*'') ''*a* **b**'' \<lparr>m_index = 0, m_full = ''*a*'', m_groups = [''a'']\<rparr>"
proof -
  have d: "specDetect (charTyped (CHR ''*'')) (caretIn [Element ''div'' [1], Text ''*a* **b**''] 1 9)
           = Some (1, [], BoldMatch \<lparr>m_index = 4, m_full = ''**b**'', m_groups = [''b'']\<rparr>)"
    by code_simp
  have i: "regexMatch italicStarRegex ''*a* **b**''
     = Some \<lparr>m_index = 0, m_full = ''*a*'', m_groups = [''a'']\<rparr>"
    by code_simp
  note fact = one_trigger_by_precedence[of "charTyped (CHR ''*'')"
      "caretIn [Element ''div'' [1], Text ''*a* **b**''] 1 9" "''*a* **b**''"
      "\<lparr>m_index = 0, m_full = ''*a*'', m_groups = [''a'']\<rparr>"]
  from fact have a: "processLiveFormatting (charTyped (CHR ''*''))
     (caretIn [Element ''div'' [1], Text ''*a* **b**''] 1 9)
   = replaceWithBold 1 \<lparr>m_index = 4, m_full = ''**b**'', m_groups = [''b'']\<rparr>
       (caretIn [Element ''div'' [1], Text ''*a* **b**''] 1 9)"
    unfolding d by (simp add: specApplyTransform_def)
  from fact i have b: "delimited ''*'' ''*a* **b**'' \<lparr>m_index = 0, m_full = ''*a*'', m_groups = [''a'']\<rparr>
   \<and> notAdjacent (CHR ''*'') ''*a* **b**'' \<lparr>m_index = 0, m_full = ''*a*'', m_groups = [''a'']\<rparr>"
    by blast
  from a i b show ?thesis by blast
qed

subsection \<open>C4: the text around a match\<close>

text \<open>
  C4 (as amended). The text node has a parent. An inline transform puts the text before
  the match, when it is not empty, into a text node ahead of the new element, and the
  text behind the match, when it is not empty, into a text node behind it; the three
  parts are the whole text. A block transform puts the text behind the caret into a text
  node behind the new element when it has a character that is not whitespace, and leaves
  it out otherwise. (\<open>plainNodes\<close>, \<open>plainIds\<close>, \<open>afterNodes\<close> and \<open>afterIds\<close> are these
  optional nodes and their indices.)
\<close>

theorem leftover_text_kept:
  assumes par: "parentNode (doc st) t = Some p"
    and node: "nodeAt (doc st) p = Some (Element ptag (xs @ t # ys))" "t \<notin> set xs"
    and tn: "nodeAt (doc st) t = Some (Text tc)"
    and wf: "wellFormed (doc st)"
    and n: "n = length (doc st)"
    and bf: "before = take (m_index m) tc"
    and af: "after = drop (m_index m + length (m_full m)) tc"
    and el: "el = n + length (plainNodes before)"
    and k: "k = (if matchGroup m 1 = [] then 1 else 2)"
    and j: "j = (if txt = [] then 1 else 2)"
  shows "(\<forall>(tag, r) \<in> {(''strong'', replaceWithBold t m st), (''em'', replaceWithItalic t m st),
                        (''code'', replaceWithCode t m st)}.
            map_sum id doc r =
              Inr ((doc st)[p := Element ptag
                       (xs @ plainIds before n @ el # plainIds after (el + k) @ ys)]
                   @ plainNodes before @ elemNodes tag el (matchGroup m 1) @ plainNodes after))
       \<and> (\<forall>(tag, r) \<in> {(''h'' @ numberToString level, replaceWithHeading t level txt afterText st),
                         (''blockquote'', replaceWithBlockquote t txt afterText st)}.
            map_sum id doc r =
              Inr ((doc st)[p := Element ptag (xs @ n # afterIds afterText (n + j) @ ys)]
                   @ elemNodes tag n txt @ afterNodes afterText))
       \<and> map_sum id doc (replaceWithList t txt afterText st) =
              Inr ((doc st)[p := Element ptag (xs @ (n + j) # afterIds afterText (Suc (n + j)) @ ys)]
                   @ elemNodes ''li'' n txt @ [Element ''ul'' [n]] @ afterNodes afterText)
       \<and> (\<forall>rx \<in> {boldStarRegex, boldUnderscoreRegex, italicStarRegex, italicUnderscoreRegex,
                    codeRegex}.
            regexMatch rx tc = Some m \<longrightarrow> tc = before @ m_full m @ after)"
proof -
  from nodeAt_SomeD[OF tn] have t: "t < length (doc st)" by simp
  have el': "el = length (doc st) + length (plainNodes before)" using el n by simp
  have kE: "length (elemNodes tag el (matchGroup m 1)) = k" for tag
    using k by (simp add: length_elemNodes)
  have jE: "length (elemNodes tag n txt) = j" for tag
    using j by (simp add: length_elemNodes)
  note b = replaceWithBold_parent[OF par node tn wf bf af el' refl]
  note i = replaceWithItalic_parent[OF par node tn wf bf af el' refl]
  note c = replaceWithCode_parent[OF par node tn wf bf af el' refl]
  note h = replaceWithHeading_parent[OF par node t n refl, of level "txt" afterText]
  note q = replaceWithBlockquote_parent[OF par node t n refl, of "txt" afterText]
  note l = replaceWithList_parent[OF par node t n refl refl, of "txt" afterText]
  have split: "tc = before @ m_full m @ after" if "regexMatch rx tc = Some m" for rx
  proof -
    from regexMatch_SomeD[OF that] have "m_full m = take (length (m_full m)) (drop (m_index m) tc)"
      by simp
    then have "before @ m_full m @ after
        = take (m_index m) tc @ take (length (m_full m)) (drop (m_index m) tc)
          @ drop (length (m_full m)) (drop (m_index m) tc)"
      unfolding bf af by (simp add: add.commute)
    also have "\<dots> = tc" by (simp only: append_take_drop_id)
    finally show ?thesis by simp
  qed
  show ?thesis
    using split k j by (simp add: b i c h q l length_elemNodes n)
qed

text \<open>
  The theorem at the text \<open>a **b** c\<close>: the bold transform leaves the children \<open>a \<close>,
  \<open>strong\<close>, \<open> c\<close>; the heading transform with the text \<open> extra\<close> behind the caret
  leaves \<open>h1\<close> and \<open> extra\<close>.
\<close>

theorem leftover_text_kept_witness:
  "parentNode (doc (caretIn [Element ''div'' [1], Text ''a **b** c''] 1 7)) 1 = Some 0
   \<and> nodeAt (doc (caretIn [Element ''div'' [1], Text ''a **b** c''] 1 7)) 1
       = Some (Text ''a **b** c'')
   \<and> wellFormed (doc (caretIn [Element ''div'' [1], Text ''a **b** c''] 1 7))
   \<and> regexMatch boldStarRegex ''a **b** c''
       = Some \<lparr>m_index = 2, m_full = ''**b**'', m_groups = [''b'']\<rparr>
   \<and> map_sum id doc
         (replaceWithBold 1 \<lparr>m_index = 2, m_full = ''**b**'', m_groups = [''b'']\<rparr>
            (caretIn [Element ''div'' [1], Text ''a **b** c''] 1 7))
       = Inr [Element ''div'' [2, 3, 5], Text ''a **b** c'', Text ''a '', Element ''strong'' [4],
              Text ''b'', Text '' c'']
   \<and> map_sum id doc
         (replaceWithHeading 1 1 ''Title '' '' extra''
            (caretIn [Element ''div'' [1], Text ''a **b** c''] 1 7))
       = Inr [Element ''div'' [2, 4], Text ''a **b** c'', Element ''h1'' [3], Text ''Title '',
              Text '' extra'']
   \<and> ''a **b** c'' = ''a '' @ ''**b**'' @ '' c''"
proof -
  let ?st = "caretIn [Element ''div'' [1], Text ''a **b** c''] 1 7"
  let ?m = "\<lparr>m_index = 2, m_full = ''**b**'', m_groups = [''b'']\<rparr>"
  have h1: "parentNode (doc ?st) 1 = Some 0" by code_simp
  have h2: "nodeAt (doc ?st) 0 = Some (Element ''div'' ([] @ 1 # []))"
    by (simp add: caretIn_def nodeAt_def)
  have h3: "(1::nat) \<notin> set []" by simp
  have h4: "nodeAt (doc ?st) 1 = Some (Text ''a **b** c'')" by (simp add: caretIn_def nodeAt_def)
  have h5: "wellFormed (doc ?st)" by code_simp
  have h6: "(2::nat) = length (doc ?st)" by (simp add: caretIn_def)
  have h7: "''a '' = take (m_index ?m) ''a **b** c''" by simp
  have h8: "'' c'' = drop (m_index ?m + length (m_full ?m)) ''a **b** c''" by simp
  have h9: "(3::nat) = 2 + length (plainNodes ''a '')" by (simp add: plainNodes_def)
  have h10: "(2::nat) = (if matchGroup ?m 1 = [] then 1 else 2)" by (simp add: matchGroup_def)
  have h11: "(2::nat) = (if ''Title '' = [] then 1 else 2)" by simp
  have m: "regexMatch boldStarRegex ''a **b** c'' = Some ?m" by code_simp
  note fact = leftover_text_kept[OF h1 h2 h3 h4 h5 h6 h7 h8 h9 h10 h11, of 1 "'' extra''"]
  from fact have b: "map_sum id doc (replaceWithBold 1 ?m ?st)
       = Inr [Element ''div'' [2, 3, 5], Text ''a **b** c'', Text ''a '', Element ''strong'' [4],
              Text ''b'', Text '' c'']"
    by (simp add: caretIn_def plainIds_def plainNodes_def elemNodes_def matchGroup_def)
  from fact have h: "map_sum id doc (replaceWithHeading 1 1 ''Title '' '' extra'' ?st)
       = Inr [Element ''div'' [2, 4], Text ''a **b** c'', Element ''h1'' [3], Text ''Title '',
              Text '' extra'']"
    by (simp add: caretIn_def afterIds_def afterNodes_def elemNodes_def trim_def isWhiteSpace_def
        numberToString.simps digitChar_def)
  from fact m have s: "''a **b** c'' = ''a '' @ ''**b**'' @ '' c''" by simp
  from h1 h4 h5 m b h s show ?thesis by blast
qed

text \<open>
  A space typed behind \<open># a\<close> with one space behind the caret: the heading is made and
  the space behind the caret is in no node of the parent. In the example of the claim
  (a space typed behind \<open># Title\<close>, before \<open> extra\<close>) the heading holds \<open>Title \<close> with
  the typed space, and the sibling text node \<open> extra\<close>.
\<close>

theorem leftover_text_counterexample:
  "processSpaceTriggeredFormatting (caretIn [Element ''div'' [1], Text ''# a  ''] 1 4)
     = Inr \<lparr>doc = [Element ''div'' [2], Text ''# a  '', Element ''h1'' [3], Text ''a ''],
            selection = Some [collapsedAt 2 1], isProcessing = True, resetTimers = 1,
            documentNode = 0, editorEl = 0, emptyClass = False, debounceTimer = False\<rparr>
   \<and> drop 4 ''# a  '' = '' ''
   \<and> processSpaceTriggeredFormatting (caretIn [Element ''div'' [1], Text ''# Title  extra''] 1 8)
     = Inr \<lparr>doc = [Element ''div'' [2, 4], Text ''# Title  extra'', Element ''h1'' [3],
                   Text ''Title '', Text '' extra''],
            selection = Some [collapsedAt 2 1], isProcessing = True, resetTimers = 1,
            documentNode = 0, editorEl = 0, emptyClass = False, debounceTimer = False\<rparr>"
  by code_simp

subsection \<open>C5: detection after a transform\<close>




subsection \<open>C6: the re-entrancy flag\<close>

text \<open>
  C6. While \<open>isProcessing\<close> is set the input handler does nothing: no detection, no
  transform, the state is as it was. Every insertion event that changed the state has set
  the flag, so the input events that follow it are not processed.
\<close>

theorem reentrancy_flag_blocks_input:
  "(isProcessing st \<longrightarrow> onInput e st = Inr st)
   \<and> (processLiveFormatting e st = Inr st' \<and> st' \<noteq> st
        \<longrightarrow> isProcessing st' \<and> onInput e' st' = Inr st')"
  using processSpace_changed[of st st'] processInline_changed[of st st']
  by (auto simp: onInput_def processLiveFormatting_def split: if_splits)

text \<open>
  The theorem at the text \<open>- \<close>: with the flag set the typed space is ignored; without it
  the space makes a list and sets the flag, and the next typed character is ignored.
\<close>

theorem reentrancy_flag_blocks_input_witness:
  "isProcessing ((caretIn [Element ''div'' [1], Text ''- ''] 1 2)\<lparr>isProcessing := True\<rparr>)
   \<and> onInput spaceTyped ((caretIn [Element ''div'' [1], Text ''- ''] 1 2)\<lparr>isProcessing := True\<rparr>)
       = Inr ((caretIn [Element ''div'' [1], Text ''- ''] 1 2)\<lparr>isProcessing := True\<rparr>)
   \<and> processLiveFormatting spaceTyped (caretIn [Element ''div'' [1], Text ''- ''] 1 2)
       = Inr \<lparr>doc = [Element ''div'' [3], Text ''- '', Element ''li'' [], Element ''ul'' [2]],
              selection = Some [collapsedAt 2 0], isProcessing = True, resetTimers = 1,
              documentNode = 0, editorEl = 0, emptyClass = False, debounceTimer = False\<rparr>
   \<and> onInput (charTyped (CHR ''x''))
         \<lparr>doc = [Element ''div'' [3], Text ''- '', Element ''li'' [], Element ''ul'' [2]],
          selection = Some [collapsedAt 2 0], isProcessing = True, resetTimers = 1,
          documentNode = 0, editorEl = 0, emptyClass = False, debounceTimer = False\<rparr>
       = Inr \<lparr>doc = [Element ''div'' [3], Text ''- '', Element ''li'' [], Element ''ul'' [2]],
              selection = Some [collapsedAt 2 0], isProcessing = True, resetTimers = 1,
              documentNode = 0, editorEl = 0, emptyClass = False, debounceTimer = False\<rparr>"
proof -
  let ?st = "caretIn [Element ''div'' [1], Text ''- ''] 1 2"
  let ?st' = "\<lparr>doc = [Element ''div'' [3], Text ''- '', Element ''li'' [], Element ''ul'' [2]],
              selection = Some [collapsedAt 2 0], isProcessing = True, resetTimers = 1,
              documentNode = 0, editorEl = 0, emptyClass = False, debounceTimer = False\<rparr>"
  have h1: "isProcessing (?st\<lparr>isProcessing := True\<rparr>)" by simp
  have h2: "processLiveFormatting spaceTyped ?st = Inr ?st'" by code_simp
  have h3: "?st' \<noteq> ?st" by (simp add: caretIn_def)
  from reentrancy_flag_blocks_input[of "?st\<lparr>isProcessing := True\<rparr>" spaceTyped] h1
  have a: "onInput spaceTyped (?st\<lparr>isProcessing := True\<rparr>) = Inr (?st\<lparr>isProcessing := True\<rparr>)"
    by blast
  from reentrancy_flag_blocks_input[of ?st spaceTyped ?st' "charTyped (CHR ''x'')"] h2 h3
  have b: "onInput (charTyped (CHR ''x'')) ?st' = Inr ?st'" by blast
  from h1 a h2 b show ?thesis by blast
qed

subsection \<open>C7: the caret after a transform\<close>

text \<open>
  C7 (as amended). The text node has a parent and is in the document, and the window has
  a selection. After a block transform the caret is at the end of the content of the new
  element (the heading, the list item, the blockquote), which is in the tree under the
  parent. After an inline transform the caret is in the parent, right behind the new
  element. The node that holds the caret is in the document, and it is never the text
  node that was removed.
\<close>

theorem caret_after_transform:
  assumes par: "parentNode (doc st) t = Some p"
    and node: "nodeAt (doc st) p = Some (Element ptag (xs @ t # ys))" "t \<notin> set xs"
    and tn: "nodeAt (doc st) t = Some (Text tc)"
    and wf: "wellFormed (doc st)"
    and root: "rootNode (doc st) t = Some (documentNode st)"
    and sel: "selection st = Some rs"
    and n: "n = length (doc st)"
    and el: "el = n + length (plainNodes (take (m_index m) tc))"
  shows "(\<forall>r \<in> {replaceWithHeading t level txt afterText st, replaceWithBlockquote t txt afterText st}.
            \<exists>st'. r = Inr st' \<and> caretAtEndOf st' n \<and> n \<in> set (childNodes (doc st') p)
                 \<and> rootNode (doc st') n = Some (documentNode st'))
       \<and> (\<exists>st' ul. replaceWithList t txt afterText st = Inr st' \<and> caretAtEndOf st' n
            \<and> n \<in> set (childNodes (doc st') ul) \<and> ul \<in> set (childNodes (doc st') p)
            \<and> rootNode (doc st') n = Some (documentNode st'))
       \<and> (\<forall>r \<in> {replaceWithBold t m st, replaceWithItalic t m st, replaceWithCode t m st}.
            \<exists>st'. r = Inr st' \<and> caretBehind st' p el
                 \<and> rootNode (doc st') p = Some (documentNode st'))
       \<and> t \<noteq> n \<and> t \<noteq> p"
proof -
  from nodeAt_SomeD[OF tn] have t: "t < length (doc st)" by simp
  from nodeAt_SomeD[OF node(1)] have p: "p < length (doc st)" by simp
  have tp: "t \<noteq> p" using tn node(1) by auto
  have el': "el = length (doc st) + length (plainNodes (take (m_index m) tc))" using el n by simp
  have xsb: "set xs \<subseteq> {..<length (doc st)}"
    using wellFormedD[OF wf p] childNodes_Element[OF node(1)] by auto
  have len: "length ((doc st)[p := v]) = n" for v using n by simp
  have blk: "\<exists>st'. r = Inr st' \<and> caretAtEndOf st' n \<and> n \<in> set (childNodes (doc st') p)
                 \<and> rootNode (doc st') n = Some (documentNode st')"
    if r: "r = Inr (st\<lparr>isProcessing := True,
             doc := (doc st)[p := Element ptag (xs @ n # afterIds afterText (n + length E) @ ys)]
                    @ E @ afterNodes afterText,
             selection := replaceRanges
                ((doc st)[p := Element ptag (xs @ n # afterIds afterText (n + length E) @ ys)]
                    @ E @ afterNodes afterText) (documentNode st)
                (collapsedAt n (if txt = [] then 0 else 1)) (selection st),
             resetTimers := Suc (resetTimers st)\<rparr>)"
      and E: "E = elemNodes etag n txt" for r E etag
  proof -
    have rt: "rootNode ((doc st)[p := Element ptag (xs @ n # afterIds afterText (n + length E) @ ys)]
                    @ E @ afterNodes afterText) n = Some (documentNode st)"
      by (rule rootNode_block_host[OF par node(1) tn wf root n E])
    have kids: "childNodes ((doc st)[p := Element ptag (xs @ n # afterIds afterText (n + length E) @ ys)]
                    @ E @ afterNodes afterText) n = (if txt = [] then [] else [Suc n])"
      unfolding E by (rule childNodes_elemNodes[OF len])
    show ?thesis
      unfolding r using sel rt kids p
      by (simp add: caretAtEndOf_def replaceRanges_def startContainer_collapsedAt
          childNodes_update_same)
  qed
  note h = replaceWithHeading_parent[OF par node t n refl, of level "txt" afterText]
  note q = replaceWithBlockquote_parent[OF par node t n refl, of "txt" afterText]
  have c1: "\<forall>r \<in> {replaceWithHeading t level txt afterText st, replaceWithBlockquote t txt afterText st}.
            \<exists>st'. r = Inr st' \<and> caretAtEndOf st' n \<and> n \<in> set (childNodes (doc st') p)
                 \<and> rootNode (doc st') n = Some (documentNode st')"
    using blk[OF h refl] blk[OF q refl] by blast
  have c2: "\<exists>st' ul. replaceWithList t txt afterText st = Inr st' \<and> caretAtEndOf st' n
            \<and> n \<in> set (childNodes (doc st') ul) \<and> ul \<in> set (childNodes (doc st') p)
            \<and> rootNode (doc st') n = Some (documentNode st')"
  proof -
    let ?E = "elemNodes ''li'' n txt"
    let ?ul = "n + length ?E"
    let ?D = "(doc st)[p := Element ptag (xs @ ?ul # afterIds afterText (Suc ?ul) @ ys)]
                    @ ?E @ [Element ''ul'' [n]] @ afterNodes afterText"
    note l = replaceWithList_parent[OF par node t n refl refl, of "txt" afterText]
    have rt: "rootNode ?D n = Some (documentNode st)"
      by (rule rootNode_list_host[OF par node(1) tn wf root n refl refl])
    have kids: "childNodes ?D n = (if txt = [] then [] else [Suc n])"
      by (rule childNodes_elemNodes[OF len])
    have ulp: "?ul \<in> set (childNodes ?D p)"
      using p by (simp add: childNodes_update_same)
    have li: "n \<in> set (childNodes ?D ?ul)"
      using n by (simp add: childNodes_def nodeAt_def nth_append length_elemNodes)
    let ?st' = "st\<lparr>isProcessing := True, doc := ?D,
             selection := replaceRanges ?D (documentNode st)
                (collapsedAt n (if txt = [] then 0 else 1)) (selection st),
             resetTimers := Suc (resetTimers st)\<rparr>"
    have res: "replaceWithList t txt afterText st = Inr ?st'"
      using l by simp
    have "caretAtEndOf ?st' n"
      using sel rt kids
      by (simp add: caretAtEndOf_def replaceRanges_def startContainer_collapsedAt)
    then show ?thesis
      using res rt ulp li
      by (intro exI[of _ ?st'] exI[of _ ?ul]) simp
  qed
  have inl: "\<exists>st'. r = Inr st' \<and> caretBehind st' p el
                 \<and> rootNode (doc st') p = Some (documentNode st')"
    if r: "r = Inr (st\<lparr>isProcessing := True,
             doc := (doc st)[p := Element ptag (xs @ plainIds before (length (doc st)) @ el
                            # plainIds after (el + length E) @ ys)]
                    @ plainNodes before @ E @ plainNodes after,
             selection := replaceRanges
                ((doc st)[p := Element ptag (xs @ plainIds before (length (doc st)) @ el
                            # plainIds after (el + length E) @ ys)]
                    @ plainNodes before @ E @ plainNodes after) (documentNode st)
                (collapsedAt p (Suc (length xs + length (plainNodes before)))) (selection st),
             resetTimers := Suc (resetTimers st)\<rparr>)"
      and E: "E = elemNodes etag el (matchGroup m 1)"
      and before: "before = take (m_index m) tc" for r E etag before after
  proof -
    have rt: "rootNode ((doc st)[p := Element ptag (xs @ plainIds before (length (doc st)) @ el
                            # plainIds after (el + length E) @ ys)]
                    @ plainNodes before @ E @ plainNodes after) p = Some (documentNode st)"
      by (rule rootNode_inline_host[OF par node(1) tn root _ E]) (simp add: el' before)
    have "el \<notin> set (xs @ plainIds before (length (doc st)))"
      using xsb el' before by (auto simp: plainIds_def plainNodes_def)
    from indexOf_split[OF this, of "plainIds after (el + length E) @ ys"]
    have ix: "indexOf el (xs @ plainIds before (length (doc st)) @ el
                            # plainIds after (el + length E) @ ys)
          = length xs + length (plainNodes before)"
      by (simp add: plainIds_def plainNodes_def)
    show ?thesis
      unfolding r using sel p rt ix
      by (simp add: caretBehind_def childNodes_update_same replaceRanges_def
          startContainer_collapsedAt)
  qed
  note b = replaceWithBold_parent[OF par node tn wf refl refl el' refl]
  note i = replaceWithItalic_parent[OF par node tn wf refl refl el' refl]
  note c = replaceWithCode_parent[OF par node tn wf refl refl el' refl]
  have c3: "\<forall>r \<in> {replaceWithBold t m st, replaceWithItalic t m st, replaceWithCode t m st}.
            \<exists>st'. r = Inr st' \<and> caretBehind st' p el
                 \<and> rootNode (doc st') p = Some (documentNode st')"
    using inl[OF b refl refl] inl[OF i refl refl] inl[OF c refl refl] by blast
  from c1 c2 c3 t tp n show ?thesis by simp
qed

text \<open>
  The theorem at the text \<open>a **b** c\<close>.
\<close>

theorem caret_after_transform_witness:
  "parentNode (doc (caretIn [Element ''div'' [1], Text ''a **b** c''] 1 7)) 1 = Some 0
   \<and> nodeAt (doc (caretIn [Element ''div'' [1], Text ''a **b** c''] 1 7)) 1
       = Some (Text ''a **b** c'')
   \<and> wellFormed (doc (caretIn [Element ''div'' [1], Text ''a **b** c''] 1 7))
   \<and> rootNode (doc (caretIn [Element ''div'' [1], Text ''a **b** c''] 1 7)) 1
       = Some (documentNode (caretIn [Element ''div'' [1], Text ''a **b** c''] 1 7))
   \<and> (\<exists>st'. replaceWithHeading 1 1 ''Title '' '' extra''
                (caretIn [Element ''div'' [1], Text ''a **b** c''] 1 7) = Inr st'
          \<and> caretAtEndOf st' 2 \<and> 2 \<in> set (childNodes (doc st') 0)
          \<and> rootNode (doc st') 2 = Some (documentNode st'))
   \<and> (\<exists>st'. replaceWithBold 1 \<lparr>m_index = 2, m_full = ''**b**'', m_groups = [''b'']\<rparr>
                (caretIn [Element ''div'' [1], Text ''a **b** c''] 1 7) = Inr st'
          \<and> caretBehind st' 0 3 \<and> rootNode (doc st') 0 = Some (documentNode st'))"
proof -
  let ?st = "caretIn [Element ''div'' [1], Text ''a **b** c''] 1 7"
  let ?m = "\<lparr>m_index = 2, m_full = ''**b**'', m_groups = [''b'']\<rparr>"
  have h1: "parentNode (doc ?st) 1 = Some 0" by code_simp
  have h2: "nodeAt (doc ?st) 0 = Some (Element ''div'' ([] @ 1 # []))"
    by (simp add: caretIn_def nodeAt_def)
  have h3: "(1::nat) \<notin> set []" by simp
  have h4: "nodeAt (doc ?st) 1 = Some (Text ''a **b** c'')" by (simp add: caretIn_def nodeAt_def)
  have h5: "wellFormed (doc ?st)" by code_simp
  have h6: "selection ?st = Some [collapsedAt 1 7]" by (simp add: caretIn_def)
  have h7: "(2::nat) = length (doc ?st)" by (simp add: caretIn_def)
  have h8: "(3::nat) = 2 + length (plainNodes (take (m_index ?m) ''a **b** c''))"
    by (simp add: plainNodes_def)
  have h9: "rootNode (doc ?st) 1 = Some (documentNode ?st)" by code_simp
  note fact = caret_after_transform[OF h1 h2 h3 h4 h5 h9 h6 h7 h8, of 1 "''Title ''" "'' extra''"]
  from fact have a: "\<exists>st'. replaceWithHeading 1 1 ''Title '' '' extra'' ?st = Inr st'
          \<and> caretAtEndOf st' 2 \<and> 2 \<in> set (childNodes (doc st') 0)
          \<and> rootNode (doc st') 2 = Some (documentNode st')"
    by blast
  from fact have b: "\<exists>st'. replaceWithBold 1 ?m ?st = Inr st' \<and> caretBehind st' 0 3
          \<and> rootNode (doc st') 0 = Some (documentNode st')"
    by blast
  from h1 h4 h5 h9 a b show ?thesis by blast
qed

text \<open>
  The bold transform: the new \<open>strong\<close> is node 3; the caret is in node 0, the parent, at
  offset 2. The heading transform on a text node whose parent \<open>p\<close> is in no document:
  the selection is left without a range.
\<close>

theorem caret_after_inline_counterexample:
  "replaceWithBold 1 \<lparr>m_index = 2, m_full = ''**b**'', m_groups = [''b'']\<rparr>
     (caretIn [Element ''div'' [1], Text ''a **b** c''] 1 7)
   = Inr \<lparr>doc = [Element ''div'' [2, 3, 5], Text ''a **b** c'', Text ''a '',
                 Element ''strong'' [4], Text ''b'', Text '' c''],
          selection = Some [collapsedAt 0 2], isProcessing = True, resetTimers = 1,
          documentNode = 0, editorEl = 0, emptyClass = False, debounceTimer = False\<rparr>
   \<and> replaceWithHeading 2 1 ''a '' []
       (caretIn [Element ''div'' [], Element ''p'' [2], Text ''# a ''] 2 4)
     = Inr \<lparr>doc = [Element ''div'' [], Element ''p'' [3], Text ''# a '', Element ''h1'' [4],
                   Text ''a ''],
            selection = Some [], isProcessing = True, resetTimers = 1,
            documentNode = 0, editorEl = 0, emptyClass = False, debounceTimer = False\<rparr>"
  by code_simp

subsection \<open>C8: when detection runs\<close>

text \<open>
  C8 (as amended). Detection reads the start of the first range of the selection. When no
  selection exists, it has no range, or the start container is not a text node, an
  insertion event transforms nothing and leaves the state as it was. (A range that starts
  in a text run is processed from its start, whatever node it ends in and whatever element
  holds the text run.)
\<close>

theorem detection_needs_text_run:
  assumes "caretRun st = None"
  shows "processLiveFormatting e st = Inr st"
  using assms
  by (auto simp: caretRun_def processLiveFormatting_def processSpaceTriggeredFormatting_def
      processInlineFormatting_def Let_def split: option.splits list.splits node.splits)

text \<open>
  The caret is in the \<open>div\<close>, not in its text node.
\<close>

theorem detection_needs_text_run_witness:
  "caretRun (caretIn [Element ''div'' [1], Text ''- ''] 0 1) = None
   \<and> processLiveFormatting spaceTyped (caretIn [Element ''div'' [1], Text ''- ''] 0 1)
       = Inr (caretIn [Element ''div'' [1], Text ''- ''] 0 1)"
proof -
  have h: "caretRun (caretIn [Element ''div'' [1], Text ''- ''] 0 1) = None" by code_simp
  from detection_needs_text_run[OF h] h show ?thesis by blast
qed

text \<open>
  A selection from the text \<open>- x\<close> into the next text node: the typed space makes a list.
  A caret in a text node inside an \<open>h1\<close>: the typed space makes a blockquote inside the
  heading.
\<close>

theorem selection_across_nodes_counterexample:
  "processLiveFormatting spaceTyped
     \<lparr>doc = [Element ''div'' [1, 2], Text ''- x'', Text ''y''],
      selection = Some [\<lparr>startContainer = 1, startOffset = 2, endContainer = 2, endOffset = 1\<rparr>],
      isProcessing = False, resetTimers = 0, documentNode = 0, editorEl = 0, emptyClass = False,
      debounceTimer = False\<rparr>
   = Inr \<lparr>doc = [Element ''div'' [4, 5, 2], Text ''- x'', Text ''y'', Element ''li'' [],
                 Element ''ul'' [3], Text ''x''],
          selection = Some [collapsedAt 3 0], isProcessing = True, resetTimers = 1,
          documentNode = 0, editorEl = 0, emptyClass = False, debounceTimer = False\<rparr>
   \<and> processLiveFormatting spaceTyped
       (caretIn [Element ''div'' [1], Element ''h1'' [2], Text ''> q ''] 2 4)
     = Inr \<lparr>doc = [Element ''div'' [1], Element ''h1'' [3], Text ''> q '',
                   Element ''blockquote'' [4], Text ''q ''],
            selection = Some [collapsedAt 3 1], isProcessing = True, resetTimers = 1,
            documentNode = 0, editorEl = 0, emptyClass = False, debounceTimer = False\<rparr>"
  by code_simp

subsection \<open>C9: a text node without a parent\<close>

text \<open>
  C9. When the text node has no parent, each of the six transforms returns without an
  exception and leaves the tree and the selection as they were.
\<close>

theorem detached_text_run_is_no_op:
  assumes "nodeAt (doc st) t = Some (Text tc)" and "parentNode (doc st) t = None"
  shows "silentNoOp st (replaceWithHeading t level txt after st)
       \<and> silentNoOp st (replaceWithList t txt after st)
       \<and> silentNoOp st (replaceWithBlockquote t txt after st)
       \<and> silentNoOp st (replaceWithBold t m st)
       \<and> silentNoOp st (replaceWithItalic t m st)
       \<and> silentNoOp st (replaceWithCode t m st)"
proof -
  from nodeAt_SomeD[OF assms(1)] have t: "t < length (doc st)" by simp
  have e: "unchangedTree (doc st) (doc st @ elemNodes tag (length (doc st)) txt @ [])" for tag
    by (rule unchangedTree_elemNodes) (simp add: childNodes_def nodeAt_def)
  have l: "unchangedTree (doc st)
             (doc st @ elemNodes ''li'' (length (doc st)) txt @ [Element ''ul'' [length (doc st)]])"
    by (rule unchangedTree_elemNodes) (auto simp: childNodes_def nodeAt_def split: if_splits)
  show ?thesis
    using e l
    by (simp add: silentNoOp_def unchangedTree_refl
        replaceWithHeading_detached[OF assms(2) t] replaceWithList_detached[OF assms(2) t]
        replaceWithBlockquote_detached[OF assms(2) t] replaceWithBold_detached[OF assms(2)]
        replaceWithItalic_detached[OF assms(2)] replaceWithCode_detached[OF assms(2)])
qed

text \<open>
  The theorem at a store whose only node is a text node.
\<close>

theorem detached_text_run_is_no_op_witness:
  "nodeAt (doc (caretIn [Text ''# a ''] 0 4)) 0 = Some (Text ''# a '')
   \<and> parentNode (doc (caretIn [Text ''# a ''] 0 4)) 0 = None
   \<and> silentNoOp (caretIn [Text ''# a ''] 0 4)
        (replaceWithHeading 0 1 ''a '' [] (caretIn [Text ''# a ''] 0 4))
   \<and> silentNoOp (caretIn [Text ''# a ''] 0 4)
        (replaceWithBold 0 \<lparr>m_index = 0, m_full = ''# a '', m_groups = [''a'']\<rparr>
           (caretIn [Text ''# a ''] 0 4))"
proof -
  have h1: "nodeAt (doc (caretIn [Text ''# a ''] 0 4)) 0 = Some (Text ''# a '')"
    by (simp add: caretIn_def nodeAt_def)
  have h2: "parentNode (doc (caretIn [Text ''# a ''] 0 4)) 0 = None"
    by (simp add: caretIn_def parentNode_def childNodes_def nodeAt_def)
  from detached_text_run_is_no_op[OF h1 h2] h1 h2 show ?thesis by blast
qed

subsection \<open>C10: saving and loading\<close>

text \<open>
  C10 (as amended). Every \<open>saveContent\<close> that returns has appended one row that holds
  the content and the time of the clock, with an id above every id the table has held,
  and has kept every stored row as it was; a save returns whenever the database is open,
  the statement runs and an id is left. When the clock of the save is later than every
  stored \<open>updated_at\<close>, the next \<open>getLatestContent\<close> returns exactly that content;
  when no stored \<open>updated_at\<close> is later than the clock, that content is one of the
  answers the query may give. On a table without rows \<open>getLatestContent\<close> returns
  \<open>null\<close>.
\<close>

theorem save_then_load_latest:
  "(saveContent stmtOk now c svc = Inr svc' \<longrightarrow>
      (\<exists>tbl new. svc = Some tbl
         \<and> svc' = Some \<lparr>tableRows = tableRows tbl @ [new], tableSeq = doc_id new\<rparr>
         \<and> content new = c \<and> created_at new = now \<and> updated_at new = now
         \<and> tableSeq tbl < doc_id new
         \<and> list_all (\<lambda>r. doc_id r < doc_id new) (tableRows tbl)
         \<and> (list_all (\<lambda>r. updated_at r < now) (tableRows tbl)
              \<longrightarrow> getLatestContent True svc' = Inr {Some c})
         \<and> (list_all (\<lambda>r. updated_at r \<le> now) (tableRows tbl)
              \<longrightarrow> (\<exists>answers. getLatestContent True svc' = Inr answers \<and> Some c \<in> answers))))
   \<and> (largestId tbl < maxRowid \<longrightarrow> (\<exists>svc'. saveContent True now c (Some tbl) = Inr svc'))
   \<and> getLatestContent True (Some \<lparr>tableRows = [], tableSeq = q\<rparr>) = Inr {None}"
proof (intro conjI impI)
  assume ok: "saveContent stmtOk now c svc = Inr svc'"
  then obtain tbl where tbl: "svc = Some tbl" "stmtOk" "largestId tbl < maxRowid"
    by (auto simp: saveContent_def split: option.splits if_splits)
  let ?new = "\<lparr>doc_id = Suc (largestId tbl), content = c, created_at = now, updated_at = now\<rparr>"
  have svc': "svc' = Some \<lparr>tableRows = tableRows tbl @ [?new], tableSeq = doc_id ?new\<rparr>"
    using ok tbl by (simp add: saveContent_def)
  have ids: "list_all (\<lambda>r. doc_id r < doc_id ?new) (tableRows tbl)"
    using largestId_ge[of _ tbl] by (auto simp: list_all_iff intro: le_imp_less_Suc)
  have seq: "tableSeq tbl < doc_id ?new" by (simp add: largestId_def)
  have strict: "getLatestContent True svc' = Inr {Some c}"
    if "list_all (\<lambda>r. updated_at r < now) (tableRows tbl)"
  proof -
    have "latestRows (tableRows tbl @ [?new]) = [?new]"
      using that by (intro latestRows_append_newest) simp
    then show ?thesis by (simp add: svc' getLatestContent_def)
  qed
  have weak: "\<exists>answers. getLatestContent True svc' = Inr answers \<and> Some c \<in> answers"
    if "list_all (\<lambda>r. updated_at r \<le> now) (tableRows tbl)"
  proof -
    have "?new \<in> set (latestRows (tableRows tbl @ [?new]))"
      using that by (intro latestRows_append_not_older) simp
    then have "Some (content ?new) \<in> (\<lambda>r. Some (content r)) ` set (latestRows (tableRows tbl @ [?new]))"
      by (rule imageI)
    then show ?thesis by (simp add: svc' getLatestContent_def)
  qed
  show "\<exists>tbl new. svc = Some tbl
         \<and> svc' = Some \<lparr>tableRows = tableRows tbl @ [new], tableSeq = doc_id new\<rparr>
         \<and> content new = c \<and> created_at new = now \<and> updated_at new = now
         \<and> tableSeq tbl < doc_id new
         \<and> list_all (\<lambda>r. doc_id r < doc_id new) (tableRows tbl)
         \<and> (list_all (\<lambda>r. updated_at r < now) (tableRows tbl)
              \<longrightarrow> getLatestContent True svc' = Inr {Some c})
         \<and> (list_all (\<lambda>r. updated_at r \<le> now) (tableRows tbl)
              \<longrightarrow> (\<exists>answers. getLatestContent True svc' = Inr answers \<and> Some c \<in> answers))"
    using tbl(1) svc' ids seq strict weak
    by (intro exI[of _ tbl] exI[of _ ?new]) simp
next
  assume "largestId tbl < maxRowid"
  then show "\<exists>svc'. saveContent True now c (Some tbl) = Inr svc'"
    by (simp add: saveContent_def)
next
  show "getLatestContent True (Some \<lparr>tableRows = [], tableSeq = q\<rparr>) = Inr {None}"
    by (simp add: getLatestContent_def)
qed

text \<open>
  A save at time 7 into a table whose row is of time 5 and which has held the id 3.
\<close>

theorem save_then_load_latest_witness:
  "saveContent True 7 ''new''
      (Some \<lparr>tableRows = [\<lparr>doc_id = 1, content = ''old'', created_at = 5, updated_at = 5\<rparr>],
             tableSeq = 3\<rparr>)
     = Inr (Some \<lparr>tableRows = [\<lparr>doc_id = 1, content = ''old'', created_at = 5, updated_at = 5\<rparr>,
                               \<lparr>doc_id = 4, content = ''new'', created_at = 7, updated_at = 7\<rparr>],
                  tableSeq = 4\<rparr>)
   \<and> list_all (\<lambda>r. updated_at r < 7)
       [\<lparr>doc_id = 1, content = ''old'', created_at = 5, updated_at = 5\<rparr>]
   \<and> getLatestContent True
       (Some \<lparr>tableRows = [\<lparr>doc_id = 1, content = ''old'', created_at = 5, updated_at = 5\<rparr>,
                           \<lparr>doc_id = 4, content = ''new'', created_at = 7, updated_at = 7\<rparr>],
              tableSeq = 4\<rparr>)
     = Inr {Some ''new''}"
proof -
  let ?old = "\<lparr>doc_id = 1, content = ''old'', created_at = 5, updated_at = 5\<rparr>"
  let ?tbl = "\<lparr>tableRows = [?old], tableSeq = 3\<rparr>"
  let ?svc' = "Some \<lparr>tableRows = [?old, \<lparr>doc_id = 4, content = ''new'', created_at = 7, updated_at = 7\<rparr>],
                  tableSeq = 4\<rparr>"
  have h1: "saveContent True 7 ''new'' (Some ?tbl) = Inr ?svc'"
    by (simp add: saveContent_def largestId_def maxRowid_def)
  have h2: "list_all (\<lambda>r. updated_at r < 7) [?old]" by simp
  from save_then_load_latest[of True 7 "''new''" "Some ?tbl" ?svc', THEN conjunct1, rule_format, OF h1]
  have "getLatestContent True ?svc' = Inr {Some ''new''}"
    using h2 by auto
  with h1 h2 show ?thesis by simp
qed

text \<open>
  The clock of the second save is behind the first row's \<open>updated_at\<close> (the host's
  clock was set back): the load returns the older content.
\<close>

theorem save_then_load_counterexample:
  "saveContent True 3 ''new''
     (Some \<lparr>tableRows = [\<lparr>doc_id = 1, content = ''old'', created_at = 5, updated_at = 5\<rparr>],
            tableSeq = 1\<rparr>)
   = Inr (Some \<lparr>tableRows = [\<lparr>doc_id = 1, content = ''old'', created_at = 5, updated_at = 5\<rparr>,
                \<lparr>doc_id = 2, content = ''new'', created_at = 3, updated_at = 3\<rparr>],
                tableSeq = 2\<rparr>)
   \<and> getLatestContent True
       (Some \<lparr>tableRows = [\<lparr>doc_id = 1, content = ''old'', created_at = 5, updated_at = 5\<rparr>,
              \<lparr>doc_id = 2, content = ''new'', created_at = 3, updated_at = 3\<rparr>],
              tableSeq = 2\<rparr>)
     = Inr {Some ''old''}"
  by (simp add: saveContent_def getLatestContent_def latestRows_def largestId_def maxRowid_def)

end
